theory Spec2Isabelle
  imports Main "HOL-Library.Word" "HOL-Library.Signed_Division"
begin

section \<open>The emulated EEPROM\<close>

text \<open>
  The sketch keeps its configuration in the EEPROM emulation of the RP2040 core. The
  library holds a RAM buffer whose size is fixed by \<open>EEPROM.begin(512)\<close> in
  \<open>initEEPROM\<close>; \<open>EEPROM.read\<close> and \<open>EEPROM.write\<close> work on that buffer and
  \<open>EEPROM.commit\<close> copies it to flash. An address outside the buffer reads as 0 and a
  write there is dropped (the library checks \<open>address < 0 || address >= _size\<close>).
  The buffer is a list of bytes; its length is the size given to \<open>begin\<close>.
\<close>

type_synonym byte = "8 word"

definition EEPROM_read :: "byte list \<Rightarrow> int \<Rightarrow> byte" where
  "EEPROM_read d a = (if a < 0 \<or> int (length d) \<le> a then 0 else d ! nat a)"

definition EEPROM_write :: "byte list \<Rightarrow> int \<Rightarrow> byte \<Rightarrow> byte list" where
  "EEPROM_write d a v = (if a < 0 \<or> int (length d) \<le> a then d else d[nat a := v])"

text \<open>
  An Arduino \<open>String\<close> is a sequence of 8-bit characters, here a \<open>string\<close>. A character
  becomes the byte with the same code when it is passed to \<open>EEPROM.write\<close>, and back.
\<close>

definition byte_of_char :: "char \<Rightarrow> byte" where
  "byte_of_char c = of_nat (of_char c)"

definition char_of_byte :: "byte \<Rightarrow> char" where
  "char_of_byte b = char_of (unat b)"

text \<open>\<open>string[i]\<close>: the character at index \<open>i\<close>, and 0 beyond the end of the string.\<close>

definition charAt :: "string \<Rightarrow> nat \<Rightarrow> char" where
  "charAt s i = (if i < length s then s ! i else CHR 0x00)"

subsection \<open>The length-prefixed string codec\<close>

text \<open>
  \<open>writeStringToEEPROM\<close>: \<open>byte len = string.length()\<close> keeps the low eight bits of
  the length; the length byte goes to \<open>addrOffset\<close> and character \<open>i\<close> to
  \<open>addrOffset + 1 + i\<close>. The \<open>for\<close> loop is \<open>writeChars\<close>, started at \<open>i = 0\<close>.
\<close>

function writeChars :: "byte list \<Rightarrow> int \<Rightarrow> string \<Rightarrow> nat \<Rightarrow> nat \<Rightarrow> byte list" where
  "writeChars d addrOffset s len i =
     (if i < len
      then writeChars (EEPROM_write d (addrOffset + 1 + int i) (byte_of_char (charAt s i)))
             addrOffset s len (Suc i)
      else d)"
  by pat_completeness auto
termination
  by (relation "measure (\<lambda>(d, addrOffset, s, len, i). len - i)") auto

declare writeChars.simps [simp del]

definition writeStringToEEPROM :: "byte list \<Rightarrow> int \<Rightarrow> string \<Rightarrow> byte list" where
  "writeStringToEEPROM d addrOffset s =
     (let len = length s mod 256
      in writeChars (EEPROM_write d addrOffset (of_nat len)) addrOffset s len 0)"

text \<open>
  \<open>readStringFromEEPROM\<close>: the length byte gives \<open>newStrLen\<close>; the loop \<open>readChars\<close>
  fills \<open>data[0 .. newStrLen - 1]\<close>, \<open>data[newStrLen]\<close> is set to 0, and
  \<open>String(data)\<close> builds the result from the C string in \<open>data\<close>: the characters
  before the first zero byte (\<open>cstring\<close>).
\<close>

function readChars :: "byte list \<Rightarrow> int \<Rightarrow> nat \<Rightarrow> nat \<Rightarrow> byte list \<Rightarrow> byte list" where
  "readChars d addrOffset newStrLen i buf =
     (if i < newStrLen
      then readChars d addrOffset newStrLen (Suc i) (buf @ [EEPROM_read d (addrOffset + 1 + int i)])
      else buf)"
  by pat_completeness auto
termination
  by (relation "measure (\<lambda>(d, addrOffset, newStrLen, i, buf). newStrLen - i)") auto

declare readChars.simps [simp del]

definition cstring :: "byte list \<Rightarrow> string" where
  "cstring bs = map char_of_byte (takeWhile (\<lambda>b. b \<noteq> 0) bs)"

definition readStringFromEEPROM :: "byte list \<Rightarrow> int \<Rightarrow> string" where
  "readStringFromEEPROM d addrOffset =
     (let newStrLen = unat (EEPROM_read d addrOffset)
      in cstring (readChars d addrOffset newStrLen 0 [] @ [0]))"

section \<open>The state of the sketch\<close>

text \<open>
  The global variables of the sketch that the configuration store, the page selector and
  the two countdowns use, with the EEPROM buffer and the flash copy behind it. The
  \<open>unsigned int\<close> counters are natural numbers: the only decrement is guarded by
  \<open>> 0\<close> and \<open>millis()/1000\<close> stays below \<open>2^32\<close>.
\<close>

record device =
  noDataLogging :: bool
  ejectSecondsRemaining :: nat
  ejectPrevSeconds :: nat
  memWipeSecondsRemaining :: nat
  memWipePrevSeconds :: nat
  cycleDataInEEPROM :: bool
  riderName :: string
  cycleName :: string
  cycleWheelCircumferenceCM :: byte
  page :: int
  eeprom :: "byte list"
  flash :: "byte list"

definition ejectSecondsTotal :: nat where "ejectSecondsTotal = 10"
definition memWipeSecondsTotal :: nat where "memWipeSecondsTotal = 30"
definition circumferenceAddr :: int where "circumferenceAddr = 1"
definition cycleDataInEEPROMAddr :: int where "cycleDataInEEPROMAddr = 0"
definition riderNameAddr :: int where "riderNameAddr = 2"
definition cycleNameAddr :: int where "cycleNameAddr = 100"
definition numPages :: int where "numPages = 5"

text \<open>
  The state after power-on: every global has its initialiser (zero or empty where none is
  written) and \<open>EEPROM.begin(512)\<close> has filled the buffer from flash.
\<close>

definition powerOn :: "byte list \<Rightarrow> device" where
  "powerOn fl =
     \<lparr> noDataLogging = False,
       ejectSecondsRemaining = ejectSecondsTotal, ejectPrevSeconds = 0,
       memWipeSecondsRemaining = memWipeSecondsTotal, memWipePrevSeconds = 0,
       cycleDataInEEPROM = False, riderName = [], cycleName = [],
       cycleWheelCircumferenceCM = 0, page = 0,
       eeprom = fl, flash = fl \<rparr>"

subsection \<open>Saving, loading and clearing the record\<close>

text \<open>\<open>bool\<close> to \<open>uint8_t\<close> and to \<open>int\<close>, and \<open>uint8_t\<close> to \<open>bool\<close>, as C++ converts them.\<close>

definition byte_of_bool :: "bool \<Rightarrow> byte" where
  "byte_of_bool b = (if b then 1 else 0)"

definition int_of_bool :: "bool \<Rightarrow> int" where
  "int_of_bool b = (if b then 1 else 0)"

definition bool_of_byte :: "byte \<Rightarrow> bool" where
  "bool_of_byte v = (v \<noteq> 0)"

text \<open>
  \<open>saveInfoToEEPROM\<close> writes the circumference, the flag, the cycle name and the rider
  name, in this order, and commits.
\<close>

definition saveInfoToEEPROM :: "device \<Rightarrow> device" where
  "saveInfoToEEPROM s =
     (let d1 = EEPROM_write (eeprom s) circumferenceAddr (cycleWheelCircumferenceCM s);
          d2 = EEPROM_write d1 cycleDataInEEPROMAddr (byte_of_bool (cycleDataInEEPROM s));
          d3 = writeStringToEEPROM d2 cycleNameAddr (cycleName s);
          d4 = writeStringToEEPROM d3 riderNameAddr (riderName s)
      in s\<lparr>eeprom := d4, flash := d4\<rparr>)"

text \<open>
  \<open>loadInfoFromEEPROM\<close>. Its first statement is
  \<open>cycleDataInEEPROM = EEPROM.read(cycleDataInEEPROM)\<close>: the address read is the
  current value of the flag variable (0 or 1), not \<open>cycleDataInEEPROMAddr\<close>.
\<close>

definition loadInfoFromEEPROM :: "device \<Rightarrow> device" where
  "loadInfoFromEEPROM s =
     (let s1 = s\<lparr>cycleDataInEEPROM :=
                   bool_of_byte (EEPROM_read (eeprom s) (int_of_bool (cycleDataInEEPROM s)))\<rparr>;
          s2 = s1\<lparr>cycleWheelCircumferenceCM := EEPROM_read (eeprom s1) circumferenceAddr\<rparr>;
          s3 = s2\<lparr>cycleName := readStringFromEEPROM (eeprom s2) cycleNameAddr\<rparr>
      in s3\<lparr>riderName := readStringFromEEPROM (eeprom s3) riderNameAddr\<rparr>)"

text \<open>
  The first two statements of \<open>clearEEPROM\<close>: the loop that writes 0 to the addresses
  \<open>0 .. 511\<close> (\<open>clearLoop\<close>, started at \<open>i = 0\<close>) and the commit.
\<close>

function clearLoop :: "byte list \<Rightarrow> int \<Rightarrow> byte list" where
  "clearLoop d i = (if i < 512 then clearLoop (EEPROM_write d i 0) (i + 1) else d)"
  by pat_completeness auto
termination
  by (relation "measure (\<lambda>(d, i). nat (512 - i))") auto

declare clearLoop.simps [simp del]

definition wipeEEPROM :: "device \<Rightarrow> device" where
  "wipeEEPROM s = (let d = clearLoop (eeprom s) 0 in s\<lparr>eeprom := d, flash := d\<rparr>)"

section \<open>Loading the record from the microSD card\<close>

text \<open>
  \<open>String::toInt\<close> is the C library's \<open>atol\<close> on the string's buffer: leading white
  space, an optional sign, then decimal digits up to the first other character; the
  result is a 32-bit \<open>long\<close> (out-of-range values saturate).
\<close>

definition isspace :: "char \<Rightarrow> bool" where
  "isspace c = (c = CHR 0x20 \<or> (9 \<le> (of_char c :: nat) \<and> (of_char c :: nat) \<le> 13))"

definition isdigit :: "char \<Rightarrow> bool" where
  "isdigit c = (48 \<le> (of_char c :: nat) \<and> (of_char c :: nat) \<le> 57)"

fun digitsValue :: "int \<Rightarrow> string \<Rightarrow> int" where
  "digitsValue acc [] = acc"
| "digitsValue acc (c # cs) =
     (if isdigit c then digitsValue (acc * 10 + (of_char c - 48)) cs else acc)"

definition atol :: "string \<Rightarrow> int" where
  "atol s =
     (let t = dropWhile isspace s;
          v = (case t of
                 [] \<Rightarrow> 0
               | c # cs \<Rightarrow>
                   if c = CHR ''-'' then - digitsValue 0 cs
                   else if c = CHR ''+'' then digitsValue 0 cs
                   else digitsValue 0 t)
      in max (- (2 ^ 31)) (min (2 ^ 31 - 1) v))"

definition toInt :: "string \<Rightarrow> int" where
  "toInt s = atol s"

text \<open>
  The loop of \<open>loadCycleData\<close> over the characters of the file: a newline increments
  \<open>pointer\<close>, any other character is appended to \<open>data[pointer]\<close>. \<open>data\<close> is an
  array of three strings and the source does not compare \<open>pointer\<close> with its size: an
  append with \<open>pointer\<close> outside \<open>0 .. 2\<close> is an access outside the array, which
  C++ leaves undefined; the model stops there with the index (\<open>Inl\<close>).
\<close>

fun readFields :: "string list \<Rightarrow> int \<Rightarrow> string \<Rightarrow> int + string list" where
  "readFields data pointer [] = Inr data"
| "readFields data pointer (c # cs) =
     (if c = CHR 0x0A then readFields data (pointer + 1) cs
      else if 0 \<le> pointer \<and> pointer < int (length data)
      then readFields (data[nat pointer := data ! nat pointer @ [c]]) pointer cs
      else Inl pointer)"

text \<open>
  \<open>loadCycleData\<close>. The file is \<open>None\<close> when \<open>SD.open\<close> fails; the sketch then shows
  a message and stays in \<open>while(true)\<close>.
\<close>

datatype loaded = Loaded device | FileNotFound device | DataIndexOutOfBounds int

definition loadCycleData :: "device \<Rightarrow> string option \<Rightarrow> loaded" where
  "loadCycleData s cycleDataFile =
     (case cycleDataFile of
        None \<Rightarrow> FileNotFound s
      | Some content \<Rightarrow>
          (case readFields [[], [], []] 0 content of
             Inl i \<Rightarrow> DataIndexOutOfBounds i
           | Inr data \<Rightarrow>
               Loaded (s\<lparr>cycleWheelCircumferenceCM := of_int (toInt (data ! 0)),
                         cycleName := data ! 1,
                         riderName := data ! 2\<rparr>)))"

section \<open>The button and the clock\<close>

text \<open>
  The sketch polls two inputs: the \<open>BOOTSEL\<close> button and \<open>millis()\<close>. One \<open>poll\<close> is
  what one pass of a polling loop reads: the value of \<open>millis()/1000\<close> at the comparison
  with the previous second, its value at the assignment that follows (the source calls
  \<open>millis()\<close> again there), and the level of the button. A loop that only waits for the
  button uses the button level of each poll. The input of a run is the list of polls it
  will see; a run that needs a poll when the list is empty is still waiting
  (\<open>Pending\<close>).
\<close>

record poll =
  secCheck :: nat
  secStore :: nat
  bootsel :: bool

text \<open>\<open>while(!BOOTSEL);\<close> and \<open>while(BOOTSEL);\<close>. \<open>None\<close>: still waiting.\<close>

fun awaitPress :: "poll list \<Rightarrow> poll list option" where
  "awaitPress [] = None"
| "awaitPress (p # ps) = (if bootsel p then Some ps else awaitPress ps)"

fun awaitRelease :: "poll list \<Rightarrow> poll list option" where
  "awaitRelease [] = None"
| "awaitRelease (p # ps) = (if bootsel p then awaitRelease ps else Some ps)"

definition pressAndRelease :: "poll list \<Rightarrow> poll list option" where
  "pressAndRelease env = (case awaitPress env of None \<Rightarrow> None | Some r \<Rightarrow> awaitRelease r)"

text \<open>
  How a run over a list of polls ends: it returned with the polls it did not read, it is
  still waiting for input, it is in a \<open>while(true)\<close> for ever, or it left the bounds
  of an array.
\<close>

datatype outcome =
    Return device "poll list"
  | Pending device
  | Halted device
  | OutOfBounds int

subsection \<open>The bootstrap\<close>

text \<open>
  \<open>initMicroSD\<close>, with the result of \<open>SD.begin\<close> and the content of \<open>info.txt\<close>
  (\<open>None\<close> when it cannot be opened) as parameters.
\<close>

definition initMicroSD :: "device \<Rightarrow> bool \<Rightarrow> string option \<Rightarrow> poll list \<Rightarrow> outcome" where
  "initMicroSD s sdBegin cycleDataFile env =
     (if \<not> sdBegin then
        (case pressAndRelease env of
           None \<Rightarrow> Pending s
         | Some r \<Rightarrow> Return (s\<lparr>noDataLogging := True\<rparr>) r)
      else
        (let s1 = loadInfoFromEEPROM s in
         if \<not> cycleDataInEEPROM s1 then
           (case pressAndRelease env of
              None \<Rightarrow> Pending s1
            | Some r1 \<Rightarrow>
                (case loadCycleData s1 cycleDataFile of
                   FileNotFound s2 \<Rightarrow> Halted s2
                 | DataIndexOutOfBounds i \<Rightarrow> OutOfBounds i
                 | Loaded s2 \<Rightarrow>
                     (case pressAndRelease r1 of
                        None \<Rightarrow> Pending s2
                      | Some r2 \<Rightarrow>
                          Return (saveInfoToEEPROM (s2\<lparr>cycleDataInEEPROM := True\<rparr>)) r2)))
         else Return s1 env))"

section \<open>Pages and countdowns\<close>

text \<open>
  \<open>page++; page = page % numPages;\<close> with the page count as a parameter. \<open>%\<close> is the
  remainder of C++, which takes the sign of the dividend (\<open>smod\<close>).
\<close>

definition advancePage :: "int \<Rightarrow> int \<Rightarrow> int" where
  "advancePage n p = (p + 1) smod n"

text \<open>
  The \<open>while\<close> loops of \<open>displayEject\<close> and \<open>displayFactoryReset\<close> are the same text
  up to the names of the variables (\<open>ejectSecondsRemaining\<close>, \<open>ejectPrevSeconds\<close>,
  \<open>ejectSecondsTotal\<close> against \<open>memWipeSecondsRemaining\<close>, \<open>memWipePrevSeconds\<close>,
  \<open>memWipeSecondsTotal\<close>). \<open>countdown\<close> is that loop on the three variables it uses;
  each pass reads one poll. The loop is left when the counter is 0 (\<open>Expired\<close>, the
  guarded action follows), or by the \<open>return\<close> of the button branch once the button is
  released (\<open>Cancelled\<close>); \<open>Polling\<close> is a loop that has read all its input.
\<close>

record countdownVars =
  remaining :: nat
  prevSeconds :: nat
  curPage :: int

datatype loopEnd =
    Expired countdownVars "poll list"
  | Cancelled countdownVars "poll list"
  | Polling countdownVars

fun countdown :: "nat \<Rightarrow> countdownVars \<Rightarrow> poll list \<Rightarrow> loopEnd" where
  "countdown secondsTotal v [] = (if 0 < remaining v then Polling v else Expired v [])"
| "countdown secondsTotal v (p # ps) =
     (if 0 < remaining v then
        (let v1 = (if secCheck p \<noteq> prevSeconds v
                   then v\<lparr>prevSeconds := secStore p, remaining := remaining v - 1\<rparr>
                   else v)
         in if bootsel p then
              (let v2 = v1\<lparr>curPage := advancePage numPages (curPage v1),
                             remaining := secondsTotal\<rparr>
               in case awaitRelease ps of
                    None \<Rightarrow> Polling v2
                  | Some r \<Rightarrow> Cancelled v2 r)
            else countdown secondsTotal v1 ps)
      else Expired v (p # ps))"

text \<open>\<open>eject\<close> shows two messages and stays in \<open>while(true)\<close>.\<close>

definition eject :: "device \<Rightarrow> outcome" where
  "eject s = Halted s"

definition ejectVars :: "device \<Rightarrow> countdownVars" where
  "ejectVars s =
     \<lparr>remaining = ejectSecondsRemaining s, prevSeconds = ejectPrevSeconds s, curPage = page s\<rparr>"

definition setEjectVars :: "device \<Rightarrow> countdownVars \<Rightarrow> device" where
  "setEjectVars s v =
     s\<lparr>ejectSecondsRemaining := remaining v, ejectPrevSeconds := prevSeconds v, page := curPage v\<rparr>"

definition displayEject :: "device \<Rightarrow> poll list \<Rightarrow> outcome" where
  "displayEject s env =
     (case countdown ejectSecondsTotal (ejectVars s) env of
        Expired v r \<Rightarrow> eject (setEjectVars s v)
      | Cancelled v r \<Rightarrow> Return (setEjectVars s v) r
      | Polling v \<Rightarrow> Pending (setEjectVars s v))"

definition memWipeVars :: "device \<Rightarrow> countdownVars" where
  "memWipeVars s =
     \<lparr>remaining = memWipeSecondsRemaining s, prevSeconds = memWipePrevSeconds s, curPage = page s\<rparr>"

definition setMemWipeVars :: "device \<Rightarrow> countdownVars \<Rightarrow> device" where
  "setMemWipeVars s v =
     s\<lparr>memWipeSecondsRemaining := remaining v, memWipePrevSeconds := prevSeconds v, page := curPage v\<rparr>"

lemma awaitRelease_length: "awaitRelease env = Some r \<Longrightarrow> length r < length env"
  by (induction env) (auto split: if_splits)

lemma awaitPress_length: "awaitPress env = Some r \<Longrightarrow> length r < length env"
  by (induction env) (auto split: if_splits)

lemma pressAndRelease_length: "pressAndRelease env = Some r \<Longrightarrow> length r < length env"
  by (auto simp: pressAndRelease_def split: option.splits
      dest!: awaitRelease_length awaitPress_length)

lemma countdown_Expired_length:
  "countdown secondsTotal v env = Expired v' r \<Longrightarrow> length r \<le> length env"
proof (induction env arbitrary: v)
  case Nil
  then show ?case by (simp split: if_splits)
next
  case (Cons p ps)
  show ?case
  proof (cases "0 < remaining v \<and> \<not> bootsel p")
    case True
    then obtain v1 where "countdown secondsTotal v1 ps = Expired v' r"
      using Cons.prems by (auto simp: Let_def split: if_splits)
    then have "length r \<le> length ps" by (rule Cons.IH)
    then show ?thesis by simp
  next
    case False
    then show ?thesis using Cons.prems
      by (auto simp: Let_def split: if_splits option.splits)
  qed
qed

text \<open>
  \<open>handleDisplay\<close> reads the button once, advances the page on a press and waits for
  the release, then runs the \<open>switch\<close> on the page (\<open>showPage\<close>): the pages 0, 1 and 4
  and the \<open>default\<close> branch only draw. \<open>displayFactoryReset\<close> is the countdown followed
  by \<open>clearEEPROM\<close>, which clears and commits, waits for a press and a release of the
  button, advances the page and calls \<open>handleDisplay\<close> again.
\<close>

function handleDisplay :: "device \<Rightarrow> poll list \<Rightarrow> outcome"
  and showPage :: "device \<Rightarrow> poll list \<Rightarrow> outcome"
  and displayFactoryReset :: "device \<Rightarrow> poll list \<Rightarrow> outcome"
  and clearEEPROM :: "device \<Rightarrow> poll list \<Rightarrow> outcome"
where
  "handleDisplay s env =
     (case env of
        [] \<Rightarrow> Pending s
      | p # ps \<Rightarrow>
          if bootsel p then
            (let s1 = s\<lparr>page := advancePage numPages (page s)\<rparr>
             in case awaitRelease ps of
                  None \<Rightarrow> Pending s1
                | Some r \<Rightarrow> showPage s1 r)
          else showPage s ps)"
| "showPage s env =
     (if page s = 2 then displayEject s env
      else if page s = 3 then displayFactoryReset s env
      else Return s env)"
| "displayFactoryReset s env =
     (case countdown memWipeSecondsTotal (memWipeVars s) env of
        Expired v r \<Rightarrow> clearEEPROM (setMemWipeVars s v) r
      | Cancelled v r \<Rightarrow> Return (setMemWipeVars s v) r
      | Polling v \<Rightarrow> Pending (setMemWipeVars s v))"
| "clearEEPROM s env =
     (let s1 = wipeEEPROM s
      in case pressAndRelease env of
           None \<Rightarrow> Pending s1
         | Some r \<Rightarrow> handleDisplay (s1\<lparr>page := advancePage numPages (page s1)\<rparr>) r)"
  by pat_completeness auto
termination
  apply (relation "measure (\<lambda>x. case x of
            Inl (Inl (s, env)) \<Rightarrow> 4 * length env + 3
          | Inl (Inr (s, env)) \<Rightarrow> 4 * length env + 2
          | Inr (Inl (s, env)) \<Rightarrow> 4 * length env + 1
          | Inr (Inr (s, env)) \<Rightarrow> 4 * length env)")
      apply (auto dest!: awaitRelease_length pressAndRelease_length countdown_Expired_length)
  done

declare handleDisplay.simps [simp del] showPage.simps [simp del]
  displayFactoryReset.simps [simp del] clearEEPROM.simps [simp del]

lemma countdown_Cancelled_length:
  "countdown secondsTotal v env = Cancelled v' r \<Longrightarrow> length r < length env"
proof (induction env arbitrary: v)
  case Nil
  then show ?case by (simp split: if_splits)
next
  case (Cons p ps)
  show ?case
  proof (cases "0 < remaining v \<and> \<not> bootsel p")
    case True
    then obtain v1 where "countdown secondsTotal v1 ps = Cancelled v' r"
      using Cons.prems by (auto simp: Let_def split: if_splits)
    then have "length r < length ps" by (rule Cons.IH)
    then show ?thesis by simp
  next
    case False
    then show ?thesis using Cons.prems
      by (auto simp: Let_def split: if_splits option.splits dest!: awaitRelease_length)
  qed
qed

lemma displayEject_Return_length:
  "displayEject s env = Return s' r \<Longrightarrow> length r < length env"
  by (auto simp: displayEject_def eject_def split: loopEnd.splits dest: countdown_Cancelled_length)

lemma handleDisplay_progress:
  shows "handleDisplay s env = Return s' r \<Longrightarrow> length r < length env"
    and "showPage s env = Return s' r \<Longrightarrow> length r \<le> length env"
    and "displayFactoryReset s env = Return s' r \<Longrightarrow> length r \<le> length env"
    and "clearEEPROM s env = Return s' r \<Longrightarrow> length r \<le> length env"
proof (induction s env and s env and s env and s env
       rule: handleDisplay_showPage_displayFactoryReset_clearEEPROM.induct)
  case (1 s env)
  show ?case
  proof (cases env)
    case Nil
    with "1.prems" show ?thesis by (simp add: handleDisplay.simps)
  next
    case (Cons p ps)
    show ?thesis
    proof (cases "bootsel p")
      case True
      let ?s1 = "s\<lparr>page := advancePage numPages (page s)\<rparr>"
      from "1.prems" Cons True obtain r1 where r1: "awaitRelease ps = Some r1"
        and sp: "showPage ?s1 r1 = Return s' r"
        by (auto simp: handleDisplay.simps Let_def split: option.splits)
      have "length r \<le> length r1"
        using "1.IH"(1) [OF Cons True refl r1 sp] .
      with awaitRelease_length [OF r1] Cons show ?thesis by simp
    next
      case False
      with "1.prems" Cons have sp: "showPage s ps = Return s' r"
        by (simp add: handleDisplay.simps)
      have "length r \<le> length ps"
        using "1.IH"(2) [OF Cons False sp] .
      with Cons show ?thesis by simp
    qed
  qed
next
  case (2 s env)
  show ?case
  proof (cases "page s = 2")
    case True
    with "2.prems" have "displayEject s env = Return s' r"
      by (simp add: showPage.simps)
    then show ?thesis by (simp add: displayEject_Return_length less_imp_le)
  next
    case ne2: False
    show ?thesis
    proof (cases "page s = 3")
      case True
      with "2.prems" ne2 have "displayFactoryReset s env = Return s' r"
        by (simp add: showPage.simps)
      then show ?thesis by (rule "2.IH" [OF ne2 True])
    next
      case False
      with "2.prems" ne2 show ?thesis by (simp add: showPage.simps)
    qed
  qed
next
  case (3 s env)
  show ?case
  proof (cases "countdown memWipeSecondsTotal (memWipeVars s) env")
    case (Expired v r1)
    with "3.prems" have "clearEEPROM (setMemWipeVars s v) r1 = Return s' r"
      by (simp add: displayFactoryReset.simps)
    then have "length r \<le> length r1" by (rule "3.IH" [OF Expired])
    with countdown_Expired_length [OF Expired] show ?thesis by simp
  next
    case (Cancelled v r1)
    with "3.prems" have "r1 = r" by (simp add: displayFactoryReset.simps)
    with countdown_Cancelled_length [OF Cancelled] show ?thesis by simp
  next
    case (Polling v)
    with "3.prems" show ?thesis by (simp add: displayFactoryReset.simps)
  qed
next
  case (4 s env)
  show ?case
  proof (cases "pressAndRelease env")
    case None
    with "4.prems" show ?thesis by (simp add: clearEEPROM.simps Let_def)
  next
    case (Some r1)
    let ?s1 = "wipeEEPROM s"
    from "4.prems" Some
    have "handleDisplay (?s1\<lparr>page := advancePage numPages (page ?s1)\<rparr>) r1 = Return s' r"
      by (simp add: clearEEPROM.simps Let_def)
    then have "length r < length r1" by (rule "4.IH" [OF refl Some])
    with pressAndRelease_length [OF Some] show ?thesis by simp
  qed
qed

text \<open>
  \<open>loop\<close> calls \<open>handleDisplay\<close> again and again (\<open>updateTime\<close> only refreshes the
  date shown). Every call reads at least one poll, so a run over a list of polls ends.
\<close>

function runLoop :: "device \<Rightarrow> poll list \<Rightarrow> outcome" where
  "runLoop s env =
     (case handleDisplay s env of
        Return s' r \<Rightarrow> runLoop s' r
      | Pending s' \<Rightarrow> Pending s'
      | Halted s' \<Rightarrow> Halted s'
      | OutOfBounds i \<Rightarrow> OutOfBounds i)"
  by pat_completeness auto
termination
  by (relation "measure (\<lambda>(s, env). length env)") (auto dest: handleDisplay_progress(1))

declare runLoop.simps [simp del]

section \<open>Measuring a list of polls\<close>

text \<open>
  The notions the properties below are stated with. \<open>ticks prev env\<close> is the number of
  polls of \<open>env\<close> at which a countdown whose previous second is \<open>prev\<close> sees a new
  second, by the comparison of the source (\<open>millis()/1000 != prev\<close>), and
  \<open>lastSecond prev env\<close> is the previous second it holds afterwards.
\<close>

fun ticks :: "nat \<Rightarrow> poll list \<Rightarrow> nat" where
  "ticks prev [] = 0"
| "ticks prev (p # ps) =
     (if secCheck p \<noteq> prev then Suc (ticks (secStore p) ps) else ticks prev ps)"

fun lastSecond :: "nat \<Rightarrow> poll list \<Rightarrow> nat" where
  "lastSecond prev [] = prev"
| "lastSecond prev (p # ps) =
     (if secCheck p \<noteq> prev then lastSecond (secStore p) ps else lastSecond prev ps)"

text \<open>
  \<open>pressEdges env\<close> is the number of press edges in \<open>env\<close>: the polls at which the
  button is down after a poll at which it was up (or at the start). \<open>released env\<close>:
  the button is up at the last poll, so that every press in \<open>env\<close> is followed by its
  release. \<open>pageInRange\<close>: the page selector is one of \<open>0 .. numPages - 1\<close>.
\<close>

fun edgesFrom :: "bool \<Rightarrow> poll list \<Rightarrow> nat" where
  "edgesFrom prev [] = 0"
| "edgesFrom prev (p # ps) =
     (if bootsel p \<and> \<not> prev then Suc (edgesFrom True ps) else edgesFrom (bootsel p) ps)"

definition pressEdges :: "poll list \<Rightarrow> nat" where
  "pressEdges env = edgesFrom False env"

definition released :: "poll list \<Rightarrow> bool" where
  "released env = (env = [] \<or> \<not> bootsel (last env))"

definition pageInRange :: "device \<Rightarrow> bool" where
  "pageInRange s = (0 \<le> page s \<and> page s < numPages)"

text \<open>
  What the page of an outcome has to satisfy: to be in range, and to agree modulo
  \<open>numPages\<close> with a count \<open>n\<close> once the press edges still unread are added.
\<close>

fun outcomePageInRange :: "outcome \<Rightarrow> bool" where
  "outcomePageInRange (Return s r) = pageInRange s"
| "outcomePageInRange (Pending s) = pageInRange s"
| "outcomePageInRange (Halted s) = pageInRange s"
| "outcomePageInRange (OutOfBounds i) = False"

fun pageCounts :: "int \<Rightarrow> outcome \<Rightarrow> bool" where
  "pageCounts n (Return s r) =
     (released r \<and> (page s + int (pressEdges r)) mod numPages = n mod numPages)"
| "pageCounts n (Pending s) = (page s mod numPages = n mod numPages)"
| "pageCounts n (Halted s) = True"
| "pageCounts n (OutOfBounds i) = True"

section \<open>Example inputs\<close>

text \<open>
  Polls with the button up and down at a given second, and a list of polls in which the
  button is pressed and released twice. A state holding the record of a cycle called
  Trusty, ridden by Ada, with a wheel of 30 cm, over an empty EEPROM. Ten and thirty
  polls at successive seconds; a device just powered on over an empty store, on the
  eject page and on the factory-reset page; ten polls at successive seconds where the
  second changes between the two readings of one pass; six presses; and a device with a saved
  record with the polls of a session that visits the factory-reset page, lets its
  countdown run out, and comes back to it.
\<close>

definition tickAt :: "nat \<Rightarrow> poll" where
  "tickAt t = \<lparr>secCheck = t, secStore = t, bootsel = False\<rparr>"

definition pressAt :: "nat \<Rightarrow> poll" where
  "pressAt t = \<lparr>secCheck = t, secStore = t, bootsel = True\<rparr>"

definition confirmTwice :: "poll list" where
  "confirmTwice = [tickAt 1, pressAt 1, tickAt 2, pressAt 5, tickAt 5]"

definition trustyAda :: device where
  "trustyAda = (powerOn (replicate 512 0))\<lparr>cycleDataInEEPROM := True,
      cycleWheelCircumferenceCM := 30, cycleName := ''Trusty'', riderName := ''Ada''\<rparr>"

definition ejectTicks :: "poll list" where
  "ejectTicks = map tickAt [1..<11]"

definition memWipeTicks :: "poll list" where
  "memWipeTicks = map tickAt [1..<31]"

definition freshDevice :: device where
  "freshDevice = powerOn (replicate 512 0)"



definition racePolls :: "poll list" where
  "racePolls =
     map tickAt [1..<5] @ [\<lparr>secCheck = 5, secStore = 6, bootsel = False\<rparr>] @ map tickAt [6..<11]"

definition sixPresses :: "poll list" where
  "sixPresses =
     [pressAt 1, tickAt 1, pressAt 2, tickAt 2, pressAt 3, tickAt 3,
      pressAt 4, tickAt 4, pressAt 5, tickAt 5, pressAt 6, tickAt 6]"

definition savedDevice :: device where
  "savedDevice = powerOn (eeprom (saveInfoToEEPROM trustyAda))"

definition revisitPolls :: "poll list" where
  "revisitPolls =
     [pressAt 1, tickAt 1,
      pressAt 2, tickAt 2, tickAt 3, pressAt 3, tickAt 3,
      tickAt 4] @ map tickAt [5..<35] @
     [pressAt 40, tickAt 40, tickAt 41,
      pressAt 42, tickAt 42,
      pressAt 43, tickAt 43,
      pressAt 44, tickAt 44, pressAt 45, tickAt 45]"

section \<open>Properties of the configuration store\<close>

lemma length_EEPROM_write: "length (EEPROM_write d a v) = length d"
  by (simp add: EEPROM_write_def)

lemma EEPROM_read_write:
  "EEPROM_read (EEPROM_write d a v) x =
     (if x = a \<and> 0 \<le> a \<and> a < int (length d) then v else EEPROM_read d x)"
  by (auto simp: EEPROM_read_def EEPROM_write_def nth_list_update)

lemma length_writeChars: "length (writeChars d a s len i) = length d"
  by (induction d a s len i rule: writeChars.induct)
     (subst writeChars.simps, simp add: length_EEPROM_write)

lemma EEPROM_read_writeChars:
  "EEPROM_read (writeChars d a s len i) x =
     (if a + 1 + int i \<le> x \<and> x < a + 1 + int len \<and> 0 \<le> x \<and> x < int (length d)
      then byte_of_char (charAt s (nat (x - a - 1)))
      else EEPROM_read d x)"
proof (induction d a s len i rule: writeChars.induct)
  case (1 d a s len i)
  show ?case
  proof (cases "i < len")
    case True
    have "nat (a + 1 + int i - a - 1) = i" by simp
    with True 1 show ?thesis
      by (subst writeChars.simps) (auto simp: EEPROM_read_write length_EEPROM_write)
  next
    case False
    then show ?thesis by (subst writeChars.simps) auto
  qed
qed

lemma length_writeString: "length (writeStringToEEPROM d a s) = length d"
  by (simp add: writeStringToEEPROM_def Let_def length_writeChars length_EEPROM_write)

lemma EEPROM_read_writeString:
  "EEPROM_read (writeStringToEEPROM d a s) x =
     (if a + 1 \<le> x \<and> x < a + 1 + int (length s mod 256) \<and> 0 \<le> x \<and> x < int (length d)
      then byte_of_char (charAt s (nat (x - a - 1)))
      else if x = a \<and> 0 \<le> a \<and> a < int (length d) then of_nat (length s mod 256)
      else EEPROM_read d x)"
  by (simp add: writeStringToEEPROM_def Let_def EEPROM_read_writeChars EEPROM_read_write
      length_EEPROM_write)

lemma readChars_eq:
  "readChars d a n i buf = buf @ map (\<lambda>k. EEPROM_read d (a + 1 + int k)) [i..<n]"
proof (induction d a n i buf rule: readChars.induct)
  case (1 d a n i buf)
  show ?case
  proof (cases "i < n")
    case True
    with 1 show ?thesis by (subst readChars.simps) (simp add: upt_conv_Cons)
  next
    case False
    then show ?thesis by (subst readChars.simps) simp
  qed
qed

lemma char_of_byte_of_char: "char_of_byte (byte_of_char c) = c"
  by (simp add: char_of_byte_def byte_of_char_def unat_of_nat)

lemma unat_byte_of_char: "unat (byte_of_char c) = of_char c"
  by (simp add: byte_of_char_def unat_of_nat)

lemma byte_of_char_eq_0: "byte_of_char c = 0 \<longleftrightarrow> c = CHR 0x00"
proof -
  have "byte_of_char c = 0 \<longleftrightarrow> unat (byte_of_char c) = 0"
    by (simp add: unat_eq_0)
  also have "\<dots> \<longleftrightarrow> (of_char c :: nat) = of_char (CHR 0x00)"
    by (simp add: unat_byte_of_char)
  also have "\<dots> \<longleftrightarrow> c = CHR 0x00"
    by (simp only: of_char_eq_iff)
  finally show ?thesis .
qed

lemma cstring_bytes:
  "CHR 0x00 \<notin> set s \<Longrightarrow> cstring (map byte_of_char s @ [0]) = s"
  by (induction s) (auto simp: cstring_def byte_of_char_eq_0 char_of_byte_of_char)

text \<open>Decoding: what \<open>readStringFromEEPROM\<close> returns when the slot holds a string.\<close>

lemma readString_decodes:
  assumes len: "EEPROM_read d a = of_nat (length s)" and le: "length s \<le> 255"
    and chars: "\<And>i. i < length s \<Longrightarrow> EEPROM_read d (a + 1 + int i) = byte_of_char (s ! i)"
    and nonul: "CHR 0x00 \<notin> set s"
  shows "readStringFromEEPROM d a = s"
proof -
  have un: "unat (of_nat (length s) :: byte) = length s"
    using le by (simp add: unat_of_nat)
  have "map (\<lambda>k. EEPROM_read d (a + 1 + int k)) [0..<length s] = map byte_of_char s"
    by (rule nth_equalityI) (simp_all add: chars)
  then show ?thesis
    using cstring_bytes [OF nonul]
    by (simp add: readStringFromEEPROM_def len un readChars_eq)
qed

subsection \<open>The string codec gives back what was written\<close>

text \<open>
  Claim C4, as amended. A string that holds no zero character, whose length fits the
  length byte (at most 255) and whose slot \<open>addr .. addr + length s\<close> lies inside the
  EEPROM buffer is read back by \<open>readStringFromEEPROM\<close> exactly as
  \<open>writeStringToEEPROM\<close> wrote it. Both slots of the sketch are covered: the slot at 2
  with up to 97 characters and the slot at 100 with up to 255.
\<close>

theorem writeString_readString_roundtrip:
  assumes "0 \<le> addr" and "addr + 1 + int (length s) \<le> int (length d)"
    and "length s \<le> 255" and "CHR 0x00 \<notin> set s"
  shows "readStringFromEEPROM (writeStringToEEPROM d addr s) addr = s"
proof (rule readString_decodes)
  have m: "length s mod 256 = length s" using assms(3) by simp
  show "EEPROM_read (writeStringToEEPROM d addr s) addr = of_nat (length s)"
    using assms(1,2) by (simp add: EEPROM_read_writeString m)
  show "length s \<le> 255" by fact
  show "CHR 0x00 \<notin> set s" by fact
  fix i assume i: "i < length s"
  have "nat (addr + 1 + int i - addr - 1) = i" by simp
  with i assms(1,2) show "EEPROM_read (writeStringToEEPROM d addr s) (addr + 1 + int i) = byte_of_char (s ! i)"
    by (simp add: EEPROM_read_writeString m charAt_def)
qed

theorem writeString_readString_roundtrip_witness:
  "(0::int) \<le> 2 \<and> 2 + 1 + int (length ''Ada'') \<le> int (length (replicate 512 (0::byte)))
   \<and> length ''Ada'' \<le> 255 \<and> CHR 0x00 \<notin> set ''Ada''
   \<and> readStringFromEEPROM (writeStringToEEPROM (replicate 512 0) 2 ''Ada'') 2 = ''Ada''"
  using writeString_readString_roundtrip [of 2 "''Ada''" "replicate 512 0"] by simp

text \<open>
  The claim as stated, for every string of a valid length, fails on a string with a zero
  character in it: \<open>String(data)\<close> ends the result at the first zero byte of the
  buffer. Three characters written to the slot at address 2 come back as one.
\<close>

theorem roundtrip_nul_counterexample:
  "length [CHR ''A'', CHR 0x00, CHR ''B''] \<le> 97 \<and>
   readStringFromEEPROM (writeStringToEEPROM (replicate 512 0) 2 [CHR ''A'', CHR 0x00, CHR ''B'']) 2
     \<noteq> [CHR ''A'', CHR 0x00, CHR ''B'']"
  by code_simp

subsection \<open>Clearing the store\<close>

lemma length_clearLoop: "length (clearLoop d i) = length d"
  by (induction d i rule: clearLoop.induct)
     (subst clearLoop.simps, simp add: length_EEPROM_write)

lemma EEPROM_read_clearLoop:
  "EEPROM_read (clearLoop d i) x =
     (if i \<le> x \<and> x < 512 \<and> 0 \<le> x \<and> x < int (length d) then 0 else EEPROM_read d x)"
proof (induction d i rule: clearLoop.induct)
  case (1 d i)
  show ?case
  proof (cases "i < 512")
    case True
    with 1 show ?thesis
      by (subst clearLoop.simps) (auto simp: EEPROM_read_write length_EEPROM_write)
  next
    case False
    then show ?thesis by (subst clearLoop.simps) auto
  qed
qed

lemma EEPROM_read_nth: "i < length d \<Longrightarrow> EEPROM_read d (int i) = d ! i"
  by (simp add: EEPROM_read_def)

lemma clearLoop_all: "length d = 512 \<Longrightarrow> clearLoop d 0 = replicate 512 0"
proof (rule nth_equalityI)
  assume l: "length d = 512"
  then show "length (clearLoop d 0) = length (replicate 512 (0::byte))"
    by (simp add: length_clearLoop)
  fix i assume "i < length (clearLoop d 0)"
  then have i: "i < 512" by (simp add: length_clearLoop l)
  then have "EEPROM_read (clearLoop d 0) (int i) = 0"
    by (simp add: EEPROM_read_clearLoop l)
  then show "clearLoop d 0 ! i = replicate 512 0 ! i"
    using i by (simp add: EEPROM_read_nth length_clearLoop l)
qed

lemma EEPROM_read_zeros: "EEPROM_read (replicate n 0) x = 0"
  by (auto simp: EEPROM_read_def)

text \<open>
  Claim C5. On the 512-byte buffer set up by \<open>initEEPROM\<close>, the clearing loop and the
  commit of \<open>clearEEPROM\<close> leave all 512 bytes of the buffer and of the flash copy
  zero, whatever the store held before; this is the state in which \<open>clearEEPROM\<close>
  waits for the button. \<open>loadInfoFromEEPROM\<close> then finds the flag unset, both in the
  same session and after the next power-on.
\<close>

theorem wipe_zeroes_store:
  assumes "length (eeprom s) = 512"
  shows "eeprom (wipeEEPROM s) = replicate 512 0
       \<and> flash (wipeEEPROM s) = replicate 512 0
       \<and> clearEEPROM s [] = Pending (wipeEEPROM s)
       \<and> \<not> cycleDataInEEPROM (loadInfoFromEEPROM (wipeEEPROM s))
       \<and> \<not> cycleDataInEEPROM (loadInfoFromEEPROM (powerOn (flash (wipeEEPROM s))))"
  using assms
  by (simp add: wipeEEPROM_def Let_def clearLoop_all loadInfoFromEEPROM_def powerOn_def
      EEPROM_read_zeros bool_of_byte_def clearEEPROM.simps pressAndRelease_def)

theorem wipe_zeroes_store_witness:
  "length (eeprom (powerOn (replicate 512 255))) = 512
   \<and> eeprom (wipeEEPROM (powerOn (replicate 512 255))) = replicate 512 0
   \<and> flash (wipeEEPROM (powerOn (replicate 512 255))) = replicate 512 0
   \<and> \<not> cycleDataInEEPROM (loadInfoFromEEPROM (wipeEEPROM (powerOn (replicate 512 255))))"
  using wipe_zeroes_store [of "powerOn (replicate 512 255)"] by (simp add: powerOn_def)

section \<open>Properties of the loader\<close>





lemma toInt_30: "toInt ''30'' = 30"
  by (simp add: toInt_def atol_def isspace_def isdigit_def)


text \<open>
  Claim C10 does not hold of the loop: a character after the third newline is appended
  to \<open>data[3]\<close>, outside the array of three strings. The file \<open>30\<close>, \<open>Trusty\<close>,
  \<open>Ada\<close>, \<open>X\<close> on four lines reaches that append.
\<close>

theorem fourth_field_out_of_bounds:
  "readFields [[], [], []] 0 ''30\<newline>Trusty\<newline>Ada\<newline>X'' = Inl 3
   \<and> loadCycleData s (Some ''30\<newline>Trusty\<newline>Ada\<newline>X'') = DataIndexOutOfBounds 3"
  by (simp add: loadCycleData_def)

section \<open>Properties of the saved record\<close>

lemma length_saveInfo: "length (eeprom (saveInfoToEEPROM s)) = length (eeprom s)"
  by (simp add: saveInfoToEEPROM_def Let_def length_writeString length_EEPROM_write)

lemma flash_saveInfo: "flash (saveInfoToEEPROM s) = eeprom (saveInfoToEEPROM s)"
  by (simp add: saveInfoToEEPROM_def Let_def)

lemma EEPROM_read_saveInfo:
  assumes "length (eeprom s) = 512" and "length (riderName s) \<le> 97"
    and "length (cycleName s) \<le> 255"
  shows "EEPROM_read (eeprom (saveInfoToEEPROM s)) x =
     (if 3 \<le> x \<and> x < 3 + int (length (riderName s))
        then byte_of_char (riderName s ! nat (x - 3))
      else if x = 2 then of_nat (length (riderName s))
      else if 101 \<le> x \<and> x < 101 + int (length (cycleName s))
        then byte_of_char (cycleName s ! nat (x - 101))
      else if x = 100 then of_nat (length (cycleName s))
      else if x = 0 then byte_of_bool (cycleDataInEEPROM s)
      else if x = 1 then cycleWheelCircumferenceCM s
      else EEPROM_read (eeprom s) x)"
proof -
  have m: "length (riderName s) mod 256 = length (riderName s)"
      "length (cycleName s) mod 256 = length (cycleName s)"
    using assms by simp_all
  have n: "3 \<le> x \<Longrightarrow> nat (x - 2 - 1) = nat (x - 3)" "101 \<le> x \<Longrightarrow> nat (x - 100 - 1) = nat (x - 101)"
    by simp_all
  show ?thesis
    using assms n
    by (auto simp: saveInfoToEEPROM_def Let_def EEPROM_read_writeString EEPROM_read_write
        length_writeString length_EEPROM_write m charAt_def
        riderNameAddr_def cycleNameAddr_def circumferenceAddr_def cycleDataInEEPROMAddr_def)
qed

lemma slice_eq:
  assumes "a + n \<le> length d" and "\<And>i. i < n \<Longrightarrow> EEPROM_read d (int (a + i)) = f i"
  shows "take n (drop a d) = map f [0..<n]"
proof (rule nth_equalityI)
  show "length (take n (drop a d)) = length (map f [0..<n])" using assms(1) by simp
  fix i assume "i < length (take n (drop a d))"
  then have i: "i < n" by simp
  with assms(1) have "EEPROM_read d (int (a + i)) = d ! (a + i)"
    by (intro EEPROM_read_nth) simp
  with i assms show "take n (drop a d) ! i = map f [0..<n] ! i" by simp
qed

lemma map_nth_upt: "map (\<lambda>i. g (xs ! i)) [0..<length xs] = map g xs"
  by (rule nth_equalityI) simp_all

text \<open>
  Claim C8, as amended. \<open>saveInfoToEEPROM\<close> writes the flag at address 0, the wheel
  circumference at address 1, the rider name (the operator) as a length byte at
  address 2 followed by its characters from address 3, and the cycle name (the device)
  as a length byte at address 100 followed by its characters from address 101. The
  rider name must fit the gap up to address 100 (at most 97 characters) and the cycle
  name the length byte.
\<close>

theorem saveInfo_layout:
  assumes "length (eeprom s) = 512" and "length (riderName s) \<le> 97"
    and "length (cycleName s) \<le> 255"
  shows "cycleDataInEEPROMAddr = 0 \<and> circumferenceAddr = 1 \<and> riderNameAddr = 2 \<and> cycleNameAddr = 100
    \<and> EEPROM_read (eeprom (saveInfoToEEPROM s)) 0 = byte_of_bool (cycleDataInEEPROM s)
    \<and> EEPROM_read (eeprom (saveInfoToEEPROM s)) 1 = cycleWheelCircumferenceCM s
    \<and> EEPROM_read (eeprom (saveInfoToEEPROM s)) 2 = of_nat (length (riderName s))
    \<and> take (length (riderName s)) (drop 3 (eeprom (saveInfoToEEPROM s))) = map byte_of_char (riderName s)
    \<and> EEPROM_read (eeprom (saveInfoToEEPROM s)) 100 = of_nat (length (cycleName s))
    \<and> take (length (cycleName s)) (drop 101 (eeprom (saveInfoToEEPROM s))) = map byte_of_char (cycleName s)"
proof -
  let ?e = "eeprom (saveInfoToEEPROM s)"
  note rd = EEPROM_read_saveInfo [OF assms]
  have l: "length ?e = 512" by (simp add: length_saveInfo assms(1))
  have r: "take (length (riderName s)) (drop 3 ?e) = map (\<lambda>i. byte_of_char (riderName s ! i)) [0..<length (riderName s)]"
    using assms(2) l by (intro slice_eq) (simp_all add: rd)
  have c: "take (length (cycleName s)) (drop 101 ?e) = map (\<lambda>i. byte_of_char (cycleName s ! i)) [0..<length (cycleName s)]"
    using assms(2,3) l by (intro slice_eq) (simp_all add: rd)
  show ?thesis
    using assms(2) r c
    by (simp add: rd map_nth_upt riderNameAddr_def cycleNameAddr_def circumferenceAddr_def cycleDataInEEPROMAddr_def)
qed

theorem saveInfo_layout_witness:
  "length (eeprom trustyAda) = 512 \<and> length (riderName trustyAda) \<le> 97
   \<and> length (cycleName trustyAda) \<le> 255
   \<and> EEPROM_read (eeprom (saveInfoToEEPROM trustyAda)) 2 = of_nat (length (riderName trustyAda))
   \<and> take (length (riderName trustyAda)) (drop 3 (eeprom (saveInfoToEEPROM trustyAda)))
       = map byte_of_char (riderName trustyAda)
   \<and> EEPROM_read (eeprom (saveInfoToEEPROM trustyAda)) 100 = of_nat (length (cycleName trustyAda))
   \<and> take (length (cycleName trustyAda)) (drop 101 (eeprom (saveInfoToEEPROM trustyAda)))
       = map byte_of_char (cycleName trustyAda)"
proof -
  have h: "length (eeprom trustyAda) = 512" "length (riderName trustyAda) \<le> 97"
      "length (cycleName trustyAda) \<le> 255"
    by (simp_all add: trustyAda_def powerOn_def)
  from saveInfo_layout [OF h] h show ?thesis by blast
qed

text \<open>
  The claim as stated puts the device name at address 2 and the operator name at
  address 100. After saving Trusty (cycle) and Ada (rider), the field at 2 holds Ada and
  the field at 100 holds Trusty.
\<close>

theorem device_name_at_2_counterexample:
  "readStringFromEEPROM (eeprom (saveInfoToEEPROM trustyAda)) 2 = ''Ada''
   \<and> readStringFromEEPROM (eeprom (saveInfoToEEPROM trustyAda)) 2 \<noteq> cycleName trustyAda
   \<and> readStringFromEEPROM (eeprom (saveInfoToEEPROM trustyAda)) 100 = ''Trusty''
   \<and> readStringFromEEPROM (eeprom (saveInfoToEEPROM trustyAda)) 100 \<noteq> riderName trustyAda"
  by code_simp

lemma load_after_save:
  assumes "length (eeprom s) = 512" and "length (riderName s) \<le> 97"
    and "length (cycleName s) \<le> 255"
    and "CHR 0x00 \<notin> set (riderName s)" and "CHR 0x00 \<notin> set (cycleName s)"
  shows "loadInfoFromEEPROM (saveInfoToEEPROM s) =
           (saveInfoToEEPROM s)\<lparr>cycleDataInEEPROM :=
              (cycleDataInEEPROM s \<and> cycleWheelCircumferenceCM s \<noteq> 0)\<rparr>"
proof -
  let ?t = "saveInfoToEEPROM s"
  note rd = EEPROM_read_saveInfo [OF assms(1-3)]
  have f: "cycleDataInEEPROM ?t = cycleDataInEEPROM s" "riderName ?t = riderName s"
      "cycleName ?t = cycleName s" "cycleWheelCircumferenceCM ?t = cycleWheelCircumferenceCM s"
    by (simp_all add: saveInfoToEEPROM_def Let_def)
  have rn: "readStringFromEEPROM (eeprom ?t) 2 = riderName s"
    using assms(2,4) by (intro readString_decodes) (simp_all add: rd)
  have cn: "readStringFromEEPROM (eeprom ?t) 100 = cycleName s"
    using assms(2,3,5) by (intro readString_decodes) (simp_all add: rd)
  have fl: "bool_of_byte (EEPROM_read (eeprom ?t) (int_of_bool (cycleDataInEEPROM s)))
            = (cycleDataInEEPROM s \<and> cycleWheelCircumferenceCM s \<noteq> 0)"
    using assms(2) by (simp add: rd int_of_bool_def bool_of_byte_def byte_of_bool_def)
  have c: "EEPROM_read (eeprom ?t) 1 = cycleWheelCircumferenceCM s"
    using assms(2) by (simp add: rd)
  show ?thesis
    by (simp add: loadInfoFromEEPROM_def Let_def f rn cn fl c
        riderNameAddr_def cycleNameAddr_def circumferenceAddr_def)
qed

section \<open>Properties of the bootstrap\<close>

lemma load_after_save_powerOn:
  assumes "length (eeprom s) = 512" and "length (riderName s) \<le> 97"
    and "length (cycleName s) \<le> 255"
    and "CHR 0x00 \<notin> set (riderName s)" and "CHR 0x00 \<notin> set (cycleName s)"
  shows "loadInfoFromEEPROM (powerOn (flash (saveInfoToEEPROM s))) =
           (powerOn (flash (saveInfoToEEPROM s)))\<lparr>cycleDataInEEPROM := cycleDataInEEPROM s,
              cycleWheelCircumferenceCM := cycleWheelCircumferenceCM s,
              cycleName := cycleName s, riderName := riderName s\<rparr>"
proof -
  let ?e = "eeprom (saveInfoToEEPROM s)"
  note rd = EEPROM_read_saveInfo [OF assms(1-3)]
  have rn: "readStringFromEEPROM ?e 2 = riderName s"
    using assms(2,4) by (intro readString_decodes) (simp_all add: rd)
  have cn: "readStringFromEEPROM ?e 100 = cycleName s"
    using assms(2,3,5) by (intro readString_decodes) (simp_all add: rd)
  have fl: "bool_of_byte (EEPROM_read ?e 0) = cycleDataInEEPROM s"
    using assms(2) by (simp add: rd bool_of_byte_def byte_of_bool_def)
  have c: "EEPROM_read ?e 1 = cycleWheelCircumferenceCM s"
    using assms(2) by (simp add: rd)
  show ?thesis
    by (simp add: loadInfoFromEEPROM_def Let_def powerOn_def flash_saveInfo rn cn fl c
        int_of_bool_def riderNameAddr_def cycleNameAddr_def circumferenceAddr_def)
qed

lemma loadCycleData_Trusty:
  "loadCycleData s (Some ''30\<newline>Trusty\<newline>Ada'') =
     Loaded (s\<lparr>cycleWheelCircumferenceCM := 30, cycleName := ''Trusty'', riderName := ''Ada''\<rparr>)"
  by (simp add: loadCycleData_def toInt_30)

lemma eeprom_loadInfo: "eeprom (loadInfoFromEEPROM s) = eeprom s"
  by (simp add: loadInfoFromEEPROM_def Let_def)

text \<open>
  Claim C7. The device is powered on over a 512-byte store whose flag byte is 0, the card
  initialises and \<open>info.txt\<close> holds \<open>30\<close>, \<open>Trusty\<close>, \<open>Ada\<close> on three lines. Once
  the button has been pressed and released twice (to start loading, then to confirm),
  \<open>initMicroSD\<close> returns with the record saved and committed, and
  \<open>loadInfoFromEEPROM\<close> reads back the flag set, circumference 30, cycle name Trusty
  and rider name Ada, in the same session and after the next power-on.
\<close>

theorem bootstrap_commits_record:
  assumes "length fl = 512" and "EEPROM_read fl 0 = 0"
    and "pressAndRelease env = Some r1" and "pressAndRelease r1 = Some r2"
  shows "case initMicroSD (powerOn fl) True (Some ''30\<newline>Trusty\<newline>Ada'') env of
           Return s' r \<Rightarrow>
             r = r2 \<and> flash s' = eeprom s'
             \<and> cycleDataInEEPROM (loadInfoFromEEPROM s')
             \<and> cycleWheelCircumferenceCM (loadInfoFromEEPROM s') = 30
             \<and> cycleName (loadInfoFromEEPROM s') = ''Trusty''
             \<and> riderName (loadInfoFromEEPROM s') = ''Ada''
             \<and> cycleDataInEEPROM (loadInfoFromEEPROM (powerOn (flash s')))
             \<and> cycleWheelCircumferenceCM (loadInfoFromEEPROM (powerOn (flash s'))) = 30
             \<and> cycleName (loadInfoFromEEPROM (powerOn (flash s'))) = ''Trusty''
             \<and> riderName (loadInfoFromEEPROM (powerOn (flash s'))) = ''Ada''
         | Pending s' \<Rightarrow> False
         | Halted s' \<Rightarrow> False
         | OutOfBounds i \<Rightarrow> False"
proof -
  let ?s1 = "loadInfoFromEEPROM (powerOn fl)"
  let ?s3 = "?s1\<lparr>cycleWheelCircumferenceCM := 30, cycleName := ''Trusty'', riderName := ''Ada'',
                   cycleDataInEEPROM := True\<rparr>"
  have nf: "\<not> cycleDataInEEPROM ?s1"
    using assms(2) by (simp add: loadInfoFromEEPROM_def Let_def powerOn_def int_of_bool_def bool_of_byte_def)
  have run: "initMicroSD (powerOn fl) True (Some ''30\<newline>Trusty\<newline>Ada'') env
               = Return (saveInfoToEEPROM ?s3) r2"
    using nf assms(3,4) by (simp add: initMicroSD_def Let_def loadCycleData_Trusty)
  have e: "eeprom ?s3 = fl" by (simp add: eeprom_loadInfo powerOn_def)
  have pre: "length (eeprom ?s3) = 512" "length (riderName ?s3) \<le> 97" "length (cycleName ?s3) \<le> 255"
      "CHR 0x00 \<notin> set (riderName ?s3)" "CHR 0x00 \<notin> set (cycleName ?s3)"
    using assms(1) by (simp_all add: e)
  let ?t = "saveInfoToEEPROM ?s3"
  have same: "cycleDataInEEPROM (loadInfoFromEEPROM ?t)"
      "cycleWheelCircumferenceCM (loadInfoFromEEPROM ?t) = 30"
      "cycleName (loadInfoFromEEPROM ?t) = ''Trusty''"
      "riderName (loadInfoFromEEPROM ?t) = ''Ada''"
    by (simp_all add: load_after_save [OF pre]) (simp_all add: saveInfoToEEPROM_def Let_def)
  have later: "cycleDataInEEPROM (loadInfoFromEEPROM (powerOn (flash ?t)))"
      "cycleWheelCircumferenceCM (loadInfoFromEEPROM (powerOn (flash ?t))) = 30"
      "cycleName (loadInfoFromEEPROM (powerOn (flash ?t))) = ''Trusty''"
      "riderName (loadInfoFromEEPROM (powerOn (flash ?t))) = ''Ada''"
    by (simp_all add: load_after_save_powerOn [OF pre])
  show ?thesis
    unfolding run using same later by (simp add: flash_saveInfo)
qed

theorem bootstrap_commits_record_witness:
  "length (replicate 512 (0::byte)) = 512 \<and> EEPROM_read (replicate 512 0) 0 = 0
   \<and> pressAndRelease confirmTwice = Some (drop 3 confirmTwice)
   \<and> pressAndRelease (drop 3 confirmTwice) = Some []
   \<and> (case initMicroSD (powerOn (replicate 512 0)) True (Some ''30\<newline>Trusty\<newline>Ada'') confirmTwice of
           Return s' r \<Rightarrow>
             r = [] \<and> cycleDataInEEPROM (loadInfoFromEEPROM s')
             \<and> cycleWheelCircumferenceCM (loadInfoFromEEPROM s') = 30
             \<and> cycleName (loadInfoFromEEPROM s') = ''Trusty''
             \<and> riderName (loadInfoFromEEPROM s') = ''Ada''
         | Pending s' \<Rightarrow> False
         | Halted s' \<Rightarrow> False
         | OutOfBounds i \<Rightarrow> False)"
proof -
  have h: "length (replicate 512 (0::byte)) = 512" "EEPROM_read (replicate 512 0) 0 = 0"
      "pressAndRelease confirmTwice = Some (drop 3 confirmTwice)"
      "pressAndRelease (drop 3 confirmTwice) = Some []"
    by (simp_all add: EEPROM_read_zeros pressAndRelease_def confirmTwice_def tickAt_def pressAt_def)
  from bootstrap_commits_record [OF h] h show ?thesis
    by (auto split: outcome.splits)
qed

section \<open>Properties of the countdowns\<close>

lemma ticks_append: "ticks prev (xs @ ys) = ticks prev xs + ticks (lastSecond prev xs) ys"
  by (induction xs arbitrary: prev) auto

lemma lastSecond_append: "lastSecond prev (xs @ ys) = lastSecond (lastSecond prev xs) ys"
  by (induction xs arbitrary: prev) auto

lemma ticks_take_le: "ticks prev (take n xs) \<le> ticks prev xs"
proof -
  have "ticks prev (take n xs @ drop n xs) = ticks prev (take n xs) + ticks (lastSecond prev (take n xs)) (drop n xs)"
    by (rule ticks_append)
  then show ?thesis by simp
qed

lemma countdown_expired_now: "remaining v = 0 \<Longrightarrow> countdown secondsTotal v env = Expired v env"
  by (cases env) simp_all

lemma countdown_append:
  "\<forall>p\<in>set pre. \<not> bootsel p \<Longrightarrow> ticks (prevSeconds v) pre < remaining v \<Longrightarrow>
   countdown secondsTotal v (pre @ rest) =
     countdown secondsTotal
       (v\<lparr>prevSeconds := lastSecond (prevSeconds v) pre,
          remaining := remaining v - ticks (prevSeconds v) pre\<rparr>) rest"
proof (induction pre arbitrary: v)
  case Nil
  then show ?case by simp
next
  case (Cons p ps)
  show ?case
  proof (cases "secCheck p \<noteq> prevSeconds v")
    case True
    let ?v1 = "v\<lparr>prevSeconds := secStore p, remaining := remaining v - 1\<rparr>"
    from Cons.prems True have t: "ticks (prevSeconds ?v1) ps < remaining ?v1" by simp
    from Cons.prems have np: "\<forall>q\<in>set ps. \<not> bootsel q" by simp
    from Cons.prems True show ?thesis
      using Cons.IH [OF np t] by simp
  next
    case False
    from Cons.prems False have t: "ticks (prevSeconds v) ps < remaining v" by simp
    from Cons.prems have np: "\<forall>q\<in>set ps. \<not> bootsel q" by simp
    from Cons.prems False show ?thesis
      using Cons.IH [OF np t] by simp
  qed
qed

lemma countdown_polling:
  assumes "\<forall>p\<in>set env. \<not> bootsel p" and "ticks (prevSeconds v) env < remaining v"
  shows "countdown secondsTotal v env =
           Polling (v\<lparr>prevSeconds := lastSecond (prevSeconds v) env,
                      remaining := remaining v - ticks (prevSeconds v) env\<rparr>)"
  using countdown_append [OF assms, of secondsTotal "[]"] assms(2) by simp

lemma countdown_expires:
  assumes np: "\<forall>p\<in>set pre. \<not> bootsel p"
    and all: "ticks (prevSeconds v) pre = remaining v"
    and before: "ticks (prevSeconds v) (butlast pre) < remaining v"
  shows "countdown secondsTotal v (pre @ post) =
           Expired (v\<lparr>prevSeconds := lastSecond (prevSeconds v) pre, remaining := 0\<rparr>) post"
proof -
  from all before have ne: "pre \<noteq> []" by auto
  let ?b = "butlast pre" and ?l = "last pre"
  have pre: "pre = ?b @ [?l]" using ne by simp
  have npb: "\<forall>p\<in>set ?b. \<not> bootsel p" using np by (auto dest: in_set_butlastD)
  have npl: "\<not> bootsel ?l" using np ne by simp
  let ?vb = "v\<lparr>prevSeconds := lastSecond (prevSeconds v) ?b,
                remaining := remaining v - ticks (prevSeconds v) ?b\<rparr>"
  have "ticks (prevSeconds v) pre = ticks (prevSeconds v) ?b + ticks (lastSecond (prevSeconds v) ?b) [?l]"
    by (subst pre) (rule ticks_append)
  with all before have tick: "secCheck ?l \<noteq> lastSecond (prevSeconds v) ?b"
    and one: "remaining v - ticks (prevSeconds v) ?b = 1"
    by (auto split: if_splits)
  have ls: "lastSecond (prevSeconds v) pre = secStore ?l"
    by (subst pre) (simp add: lastSecond_append tick)
  have "countdown secondsTotal v (pre @ post) = countdown secondsTotal v (?b @ ?l # post)"
    by (subst pre) simp
  also have "\<dots> = countdown secondsTotal ?vb (?l # post)"
    by (rule countdown_append [OF npb before])
  also have "\<dots> = Expired (v\<lparr>prevSeconds := lastSecond (prevSeconds v) pre, remaining := 0\<rparr>) post"
    using tick one npl by (simp add: ls countdown_expired_now)
  finally show ?thesis .
qed

lemma ticks_prefix_less:
  assumes "n < length pre" and "ticks prev (butlast pre) < T"
  shows "ticks prev (take n pre) < T"
proof -
  from assms(1) have "take n pre = take n (butlast pre)"
    by (simp add: take_butlast)
  then have "ticks prev (take n pre) \<le> ticks prev (butlast pre)"
    by (simp add: ticks_take_le)
  with assms(2) show ?thesis by simp
qed

lemma no_press_take: "\<forall>p\<in>set pre. \<not> bootsel p \<Longrightarrow> \<forall>p\<in>set (take n pre). \<not> bootsel p"
  by (auto dest: in_set_takeD)

lemma displayEject_expires:
  assumes "\<forall>p\<in>set pre. \<not> bootsel p"
    and "ticks (ejectPrevSeconds s) pre = ejectSecondsRemaining s"
    and "ticks (ejectPrevSeconds s) (butlast pre) < ejectSecondsRemaining s"
  shows "displayEject s (pre @ post) =
           eject (s\<lparr>ejectSecondsRemaining := 0,
                     ejectPrevSeconds := lastSecond (ejectPrevSeconds s) pre\<rparr>)"
  using countdown_expires [of pre "ejectVars s" ejectSecondsTotal post] assms
  by (simp add: displayEject_def ejectVars_def setEjectVars_def)

lemma displayEject_polling:
  assumes "\<forall>p\<in>set env. \<not> bootsel p"
    and "ticks (ejectPrevSeconds s) env < ejectSecondsRemaining s"
  shows "displayEject s env =
           Pending (s\<lparr>ejectSecondsRemaining := ejectSecondsRemaining s - ticks (ejectPrevSeconds s) env,
                       ejectPrevSeconds := lastSecond (ejectPrevSeconds s) env\<rparr>)"
  using countdown_polling [of env "ejectVars s" ejectSecondsTotal] assms
  by (simp add: displayEject_def ejectVars_def setEjectVars_def)

lemma displayFactoryReset_expires:
  assumes "\<forall>p\<in>set pre. \<not> bootsel p"
    and "ticks (memWipePrevSeconds s) pre = memWipeSecondsRemaining s"
    and "ticks (memWipePrevSeconds s) (butlast pre) < memWipeSecondsRemaining s"
  shows "displayFactoryReset s (pre @ post) =
           clearEEPROM (s\<lparr>memWipeSecondsRemaining := 0,
                           memWipePrevSeconds := lastSecond (memWipePrevSeconds s) pre\<rparr>) post"
  using countdown_expires [of pre "memWipeVars s" memWipeSecondsTotal post] assms
  by (simp add: displayFactoryReset.simps memWipeVars_def setMemWipeVars_def)

lemma displayFactoryReset_polling:
  assumes "\<forall>p\<in>set env. \<not> bootsel p"
    and "ticks (memWipePrevSeconds s) env < memWipeSecondsRemaining s"
  shows "displayFactoryReset s env =
           Pending (s\<lparr>memWipeSecondsRemaining := memWipeSecondsRemaining s - ticks (memWipePrevSeconds s) env,
                       memWipePrevSeconds := lastSecond (memWipePrevSeconds s) env\<rparr>)"
  using countdown_polling [of env "memWipeVars s" memWipeSecondsTotal] assms
  by (simp add: displayFactoryReset.simps memWipeVars_def setMemWipeVars_def)

text \<open>
  What a countdown does when it is entered with its counter at the total (10 for eject,
  30 for factory reset), as at power-on and after a cancel. It is driven by polls
  \<open>pre\<close> in which the button is never down, that hold exactly that many ticks, counted
  by the loop's own comparison, and end with the last of them. Then the run is the
  guarded action, called once on the state reached at that tick: \<open>eject\<close>, or
  \<open>clearEEPROM\<close> with the polls \<open>post\<close> that follow still unread. After any shorter
  part of \<open>pre\<close> fewer ticks have been seen, the loop is still polling, and nothing but
  the counter and the previous second has changed.
\<close>

lemma countdown_from_full_counter:
  assumes "\<forall>p\<in>set pre. \<not> bootsel p"
  shows "(ejectSecondsRemaining s = ejectSecondsTotal
          \<and> ticks (ejectPrevSeconds s) pre = ejectSecondsTotal
          \<and> ticks (ejectPrevSeconds s) (butlast pre) < ejectSecondsTotal
          \<longrightarrow> displayEject s (pre @ post) =
                eject (s\<lparr>ejectSecondsRemaining := 0,
                          ejectPrevSeconds := lastSecond (ejectPrevSeconds s) pre\<rparr>)
              \<and> (\<forall>n<length pre.
                    ticks (ejectPrevSeconds s) (take n pre) < ejectSecondsTotal
                    \<and> displayEject s (take n pre) =
                        Pending (s\<lparr>ejectSecondsRemaining :=
                                     ejectSecondsTotal - ticks (ejectPrevSeconds s) (take n pre),
                                   ejectPrevSeconds := lastSecond (ejectPrevSeconds s) (take n pre)\<rparr>)))
       \<and> (memWipeSecondsRemaining s = memWipeSecondsTotal
          \<and> ticks (memWipePrevSeconds s) pre = memWipeSecondsTotal
          \<and> ticks (memWipePrevSeconds s) (butlast pre) < memWipeSecondsTotal
          \<longrightarrow> displayFactoryReset s (pre @ post) =
                clearEEPROM (s\<lparr>memWipeSecondsRemaining := 0,
                                memWipePrevSeconds := lastSecond (memWipePrevSeconds s) pre\<rparr>) post
              \<and> (\<forall>n<length pre.
                    ticks (memWipePrevSeconds s) (take n pre) < memWipeSecondsTotal
                    \<and> displayFactoryReset s (take n pre) =
                        Pending (s\<lparr>memWipeSecondsRemaining :=
                                     memWipeSecondsTotal - ticks (memWipePrevSeconds s) (take n pre),
                                   memWipePrevSeconds := lastSecond (memWipePrevSeconds s) (take n pre)\<rparr>)))"
proof (intro conjI impI allI)
  assume h: "ejectSecondsRemaining s = ejectSecondsTotal
          \<and> ticks (ejectPrevSeconds s) pre = ejectSecondsTotal
          \<and> ticks (ejectPrevSeconds s) (butlast pre) < ejectSecondsTotal"
  show "displayEject s (pre @ post) =
          eject (s\<lparr>ejectSecondsRemaining := 0, ejectPrevSeconds := lastSecond (ejectPrevSeconds s) pre\<rparr>)"
    using h by (intro displayEject_expires assms) simp_all
  fix n assume n: "n < length pre"
  show t: "ticks (ejectPrevSeconds s) (take n pre) < ejectSecondsTotal"
    using n h by (intro ticks_prefix_less) simp_all
  show "displayEject s (take n pre) =
          Pending (s\<lparr>ejectSecondsRemaining := ejectSecondsTotal - ticks (ejectPrevSeconds s) (take n pre),
                     ejectPrevSeconds := lastSecond (ejectPrevSeconds s) (take n pre)\<rparr>)"
    using displayEject_polling [OF no_press_take [OF assms, of n], of s] t h by simp
next
  assume h: "memWipeSecondsRemaining s = memWipeSecondsTotal
          \<and> ticks (memWipePrevSeconds s) pre = memWipeSecondsTotal
          \<and> ticks (memWipePrevSeconds s) (butlast pre) < memWipeSecondsTotal"
  show "displayFactoryReset s (pre @ post) =
          clearEEPROM (s\<lparr>memWipeSecondsRemaining := 0,
                         memWipePrevSeconds := lastSecond (memWipePrevSeconds s) pre\<rparr>) post"
    using h by (intro displayFactoryReset_expires assms) simp_all
  fix n assume n: "n < length pre"
  show t: "ticks (memWipePrevSeconds s) (take n pre) < memWipeSecondsTotal"
    using n h by (intro ticks_prefix_less) simp_all
  show "displayFactoryReset s (take n pre) =
          Pending (s\<lparr>memWipeSecondsRemaining := memWipeSecondsTotal - ticks (memWipePrevSeconds s) (take n pre),
                     memWipePrevSeconds := lastSecond (memWipePrevSeconds s) (take n pre)\<rparr>)"
    using displayFactoryReset_polling [OF no_press_take [OF assms, of n], of s] t h by simp
qed

lemma countdown_from_full_counter_example:
  "\<not> (\<exists>p\<in>set ejectTicks. bootsel p)
   \<and> ejectSecondsRemaining freshDevice = ejectSecondsTotal
   \<and> ticks (ejectPrevSeconds freshDevice) ejectTicks = ejectSecondsTotal
   \<and> ticks (ejectPrevSeconds freshDevice) (butlast ejectTicks) < ejectSecondsTotal
   \<and> displayEject freshDevice (ejectTicks @ []) =
        eject (freshDevice\<lparr>ejectSecondsRemaining := 0,
                 ejectPrevSeconds := lastSecond (ejectPrevSeconds freshDevice) ejectTicks\<rparr>)
   \<and> displayEject freshDevice (take 9 ejectTicks) =
        Pending (freshDevice\<lparr>ejectSecondsRemaining :=
                     ejectSecondsTotal - ticks (ejectPrevSeconds freshDevice) (take 9 ejectTicks),
                   ejectPrevSeconds := lastSecond (ejectPrevSeconds freshDevice) (take 9 ejectTicks)\<rparr>)
   \<and> \<not> (\<exists>p\<in>set memWipeTicks. bootsel p)
   \<and> memWipeSecondsRemaining freshDevice = memWipeSecondsTotal
   \<and> ticks (memWipePrevSeconds freshDevice) memWipeTicks = memWipeSecondsTotal
   \<and> ticks (memWipePrevSeconds freshDevice) (butlast memWipeTicks) < memWipeSecondsTotal
   \<and> displayFactoryReset freshDevice (memWipeTicks @ []) =
        clearEEPROM (freshDevice\<lparr>memWipeSecondsRemaining := 0,
                 memWipePrevSeconds := lastSecond (memWipePrevSeconds freshDevice) memWipeTicks\<rparr>) []"
proof -
  have e: "\<forall>p\<in>set ejectTicks. \<not> bootsel p"
    by (auto simp: ejectTicks_def tickAt_def)
  have eh: "ejectSecondsRemaining freshDevice = ejectSecondsTotal
          \<and> ticks (ejectPrevSeconds freshDevice) ejectTicks = ejectSecondsTotal
          \<and> ticks (ejectPrevSeconds freshDevice) (butlast ejectTicks) < ejectSecondsTotal"
    by code_simp
  have m: "\<forall>p\<in>set memWipeTicks. \<not> bootsel p"
    by (auto simp: memWipeTicks_def tickAt_def)
  have mh: "memWipeSecondsRemaining freshDevice = memWipeSecondsTotal
          \<and> ticks (memWipePrevSeconds freshDevice) memWipeTicks = memWipeSecondsTotal
          \<and> ticks (memWipePrevSeconds freshDevice) (butlast memWipeTicks) < memWipeSecondsTotal"
    by code_simp
  have n: "9 < length ejectTicks" by (simp add: ejectTicks_def)
  note E = countdown_from_full_counter [OF e, of freshDevice "[]", THEN conjunct1, THEN mp, OF eh]
  note M = countdown_from_full_counter [OF m, of freshDevice "[]", THEN conjunct2, THEN mp, OF mh]
  from E n have E2: "displayEject freshDevice (take 9 ejectTicks) =
        Pending (freshDevice\<lparr>ejectSecondsRemaining :=
                     ejectSecondsTotal - ticks (ejectPrevSeconds freshDevice) (take 9 ejectTicks),
                   ejectPrevSeconds := lastSecond (ejectPrevSeconds freshDevice) (take 9 ejectTicks)\<rparr>)"
    by blast
  from e eh m mh E M E2 show ?thesis by blast
qed



lemma advancePage_mod: "0 \<le> p \<Longrightarrow> 0 < n \<Longrightarrow> advancePage n p = (p + 1) mod n"
  by (simp add: advancePage_def smod_mod_positive)



lemma displayFactoryReset_expired_at_entry:
  assumes "memWipeSecondsRemaining s = 0"
  shows "displayFactoryReset s env = clearEEPROM s env"
proof -
  have "s\<lparr>memWipeSecondsRemaining := memWipeSecondsRemaining s\<rparr> = s" by simp
  with assms have eq: "s\<lparr>memWipeSecondsRemaining := 0\<rparr> = s" by simp
  from assms have "displayFactoryReset s env = clearEEPROM (s\<lparr>memWipeSecondsRemaining := 0\<rparr>) env"
    by (simp add: displayFactoryReset.simps countdown_expired_now memWipeVars_def
        setMemWipeVars_def)
  then show ?thesis by (simp only: eq)
qed

text \<open>
  Claim C2 does not hold of the factory-reset countdown. The counter is set back to the
  total only in the button branch; when the countdown runs out it stays 0. In the session
  \<open>revisitPolls\<close> the countdown of the factory-reset page runs out, the store is
  cleared, a press lets the sketch go on to page 4, and four presses later the page is 3
  again: the counter is 0 where the claim has 30, and the loop is left at once with no
  poll read, so \<open>clearEEPROM\<close> follows without a countdown.
\<close>

theorem factory_reset_revisit_has_no_countdown:
  "case runLoop savedDevice revisitPolls of
     Pending s \<Rightarrow>
       page s = 3 \<and> memWipeSecondsRemaining s = 0
       \<and> countdown memWipeSecondsTotal (memWipeVars s) [tickAt 46, tickAt 47]
           = Expired (memWipeVars s) [tickAt 46, tickAt 47]
   | Halted s \<Rightarrow> False
   | Return s r \<Rightarrow> False
   | OutOfBounds i \<Rightarrow> False"
  by code_simp

lemma revisit_state:
  "case runLoop savedDevice revisitPolls of
     Pending s \<Rightarrow> page s = 3 \<and> memWipeSecondsRemaining s = 0
   | Halted s \<Rightarrow> False
   | Return s r \<Rightarrow> False
   | OutOfBounds i \<Rightarrow> False"
  by code_simp

lemma race_leaves_one:
  "map secCheck racePolls = [1, 2, 3, 4, 5, 6, 7, 8, 9, 10]
   \<and> \<not> (\<exists>p\<in>set racePolls. bootsel p)
   \<and> displayEject freshDevice racePolls =
        Pending (freshDevice\<lparr>ejectSecondsRemaining := 1, ejectPrevSeconds := 10\<rparr>)"
  by code_simp

text \<open>
  Claim C1 does not hold of the countdowns. In the session \<open>revisitPolls\<close> the
  factory-reset page is reached a second time with its counter at 0: with no poll read,
  and after one poll with the button up, \<open>clearEEPROM\<close> is already called, before the
  first of the thirty ticks. And in \<open>racePolls\<close> the comparisons of the eject loop see
  the ten seconds 1 to 10 and no press, but the second stored at the fifth pass is the
  one read again after the comparison, so the sixth second is not counted: the counter
  is 1 and \<open>eject\<close> has not been called.
\<close>

theorem factory_reset_fires_before_first_tick:
  "(case runLoop savedDevice revisitPolls of
      Pending s \<Rightarrow>
        page s = 3
        \<and> displayFactoryReset s [] = clearEEPROM s []
        \<and> handleDisplay s [tickAt 34] = clearEEPROM s []
    | Halted s \<Rightarrow> False
    | Return s r \<Rightarrow> False
    | OutOfBounds i \<Rightarrow> False)
   \<and> map secCheck racePolls = [1, 2, 3, 4, 5, 6, 7, 8, 9, 10]
   \<and> \<not> (\<exists>p\<in>set racePolls. bootsel p)
   \<and> displayEject freshDevice racePolls =
        Pending (freshDevice\<lparr>ejectSecondsRemaining := 1, ejectPrevSeconds := 10\<rparr>)"
proof -
  have "case runLoop savedDevice revisitPolls of
      Pending s \<Rightarrow>
        page s = 3
        \<and> displayFactoryReset s [] = clearEEPROM s []
        \<and> handleDisplay s [tickAt 34] = clearEEPROM s []
    | Halted s \<Rightarrow> False
    | Return s r \<Rightarrow> False
    | OutOfBounds i \<Rightarrow> False"
  proof (cases "runLoop savedDevice revisitPolls")
    case (Pending s)
    with revisit_state have pg: "page s = 3" and z: "memWipeSecondsRemaining s = 0"
      by simp_all
    have a: "displayFactoryReset s [] = clearEEPROM s []"
      using z by (rule displayFactoryReset_expired_at_entry)
    have b: "handleDisplay s [tickAt 34] = clearEEPROM s []"
      using pg a by (simp add: handleDisplay.simps showPage.simps tickAt_def)
    from Pending pg a b show ?thesis by simp
  next
    case (Return s r)
    with revisit_state show ?thesis by simp
  next
    case (Halted s)
    with revisit_state show ?thesis by simp
  next
    case (OutOfBounds i)
    with revisit_state show ?thesis by simp
  qed
  with race_leaves_one show ?thesis by blast
qed

section \<open>Properties of the page selector\<close>

lemma released_tl: "released (p # ps) \<Longrightarrow> released ps"
  by (auto simp: released_def)

lemma released_Cons_nonempty: "released [p] \<Longrightarrow> \<not> bootsel p"
  by (simp add: released_def)

lemma awaitRelease_edges:
  "awaitRelease ps = Some r \<Longrightarrow> edgesFrom True ps = edgesFrom False r"
  by (induction ps) (auto split: if_splits)

lemma awaitRelease_released:
  "awaitRelease ps = Some r \<Longrightarrow> released ps \<Longrightarrow> released r"
  by (induction ps) (auto split: if_splits dest: released_tl)

lemma awaitRelease_None: "awaitRelease ps = None \<Longrightarrow> released ps \<Longrightarrow> ps = []"
proof (induction ps)
  case Nil
  then show ?case by simp
next
  case (Cons p ps)
  then have b: "bootsel p" and n: "awaitRelease ps = None" by (auto split: if_splits)
  from Cons.prems(2) have "released ps" by (rule released_tl)
  with Cons.IH n have "ps = []" by simp
  with Cons.prems(2) b show ?case by (simp add: released_def)
qed

lemma awaitPress_edges:
  "awaitPress env = Some r \<Longrightarrow> edgesFrom False env = Suc (edgesFrom True r)"
  by (induction env) (auto split: if_splits)

lemma awaitPress_released:
  "awaitPress env = Some r \<Longrightarrow> released env \<Longrightarrow> released r"
  by (induction env) (auto split: if_splits dest: released_tl)

lemma awaitPress_None: "awaitPress env = None \<Longrightarrow> edgesFrom False env = 0"
  by (induction env) (auto split: if_splits)

lemma pressAndRelease_Some:
  assumes "pressAndRelease env = Some r"
  shows "edgesFrom False env = Suc (edgesFrom False r)" and "released env \<Longrightarrow> released r"
proof -
  from assms obtain r1 where p: "awaitPress env = Some r1" and q: "awaitRelease r1 = Some r"
    by (auto simp: pressAndRelease_def split: option.splits)
  show "edgesFrom False env = Suc (edgesFrom False r)"
    using awaitPress_edges [OF p] awaitRelease_edges [OF q] by simp
  show "released env \<Longrightarrow> released r"
    using awaitPress_released [OF p] awaitRelease_released [OF q] by simp
qed

lemma pressAndRelease_None:
  assumes "pressAndRelease env = None" and "released env"
  shows "edgesFrom False env = 0"
proof (cases "awaitPress env")
  case None
  then show ?thesis by (rule awaitPress_None)
next
  case (Some r1)
  with assms(1) have n: "awaitRelease r1 = None" by (simp add: pressAndRelease_def)
  from awaitPress_released [OF Some assms(2)] have "released r1" .
  with n have e: "r1 = []" by (rule awaitRelease_None)
  have "\<And>r. awaitPress env = Some r \<Longrightarrow> r = [] \<Longrightarrow> released env \<Longrightarrow> False"
  proof -
    fix r show "awaitPress env = Some r \<Longrightarrow> r = [] \<Longrightarrow> released env \<Longrightarrow> False"
      by (induction env) (auto split: if_splits simp: released_def)
  qed
  from this [OF Some e assms(2)] show ?thesis ..
qed

lemma advancePage_numPages:
  "0 \<le> p \<Longrightarrow> advancePage numPages p = (p + 1) mod numPages"
  by (simp add: advancePage_mod numPages_def)

lemma pageInRange_advance:
  "pageInRange s \<Longrightarrow> pageInRange (s\<lparr>page := advancePage numPages (page s)\<rparr>)"
  by (simp add: pageInRange_def advancePage_numPages)

lemma countdown_page:
  "case countdown secondsTotal v env of
     Expired v' r \<Rightarrow> curPage v' = curPage v
   | Cancelled v' r \<Rightarrow> curPage v' = advancePage numPages (curPage v)
   | Polling v' \<Rightarrow> curPage v' = curPage v \<or> curPage v' = advancePage numPages (curPage v)"
proof (induction env arbitrary: v)
  case Nil
  show ?case by simp
next
  case (Cons p ps)
  show ?case
  proof (cases "0 < remaining v \<and> \<not> bootsel p")
    case True
    then show ?thesis
      using Cons.IH [of "v\<lparr>prevSeconds := secStore p, remaining := remaining v - 1\<rparr>"]
        Cons.IH [of v]
      by (auto simp: Let_def split: loopEnd.splits)
  next
    case False
    then show ?thesis by (auto simp: Let_def split: option.splits)
  qed
qed

lemma countdown_edges:
  "released env \<Longrightarrow>
   (case countdown secondsTotal v env of
      Expired v' r \<Rightarrow> edgesFrom False env = edgesFrom False r \<and> released r
    | Cancelled v' r \<Rightarrow> edgesFrom False env = Suc (edgesFrom False r) \<and> released r
    | Polling v' \<Rightarrow> curPage v' = curPage v \<and> edgesFrom False env = 0)"
proof (induction env arbitrary: v)
  case Nil
  show ?case by (simp add: released_def)
next
  case (Cons p ps)
  show ?case
  proof (cases "0 < remaining v")
    case False
    with Cons.prems show ?thesis by simp
  next
    case pos: True
    show ?thesis
    proof (cases "bootsel p")
      case True
      with Cons.prems have ne: "ps \<noteq> []" by (auto simp: released_def)
      from Cons.prems have rel: "released ps" by (rule released_tl)
      from ne rel awaitRelease_None [of ps] obtain r where r: "awaitRelease ps = Some r"
        by (cases "awaitRelease ps") auto
      from pos True r rel show ?thesis
        by (simp add: Let_def awaitRelease_edges [OF r] awaitRelease_released [OF r])
    next
      case False
      from Cons.prems have rel: "released ps" by (rule released_tl)
      from pos False show ?thesis
        using Cons.IH [OF rel, of "v\<lparr>prevSeconds := secStore p, remaining := remaining v - 1\<rparr>"]
          Cons.IH [OF rel, of v]
        by (auto simp: Let_def split: loopEnd.splits)
    qed
  qed
qed

lemma displayEject_page:
  assumes "pageInRange s"
  shows "outcomePageInRange (displayEject s env)"
  using countdown_page [where secondsTotal = ejectSecondsTotal and v = "ejectVars s" and env = env] assms pageInRange_advance [OF assms]
  by (auto simp: displayEject_def eject_def ejectVars_def setEjectVars_def pageInRange_def
      split: loopEnd.splits)

lemma page_wipeEEPROM: "page (wipeEEPROM s) = page s"
  by (simp add: wipeEEPROM_def Let_def)

lemma pageInRange_wipe_advance:
  "pageInRange s \<Longrightarrow>
   pageInRange ((wipeEEPROM s)\<lparr>page := advancePage numPages (page (wipeEEPROM s))\<rparr>)"
  using pageInRange_advance [of "wipeEEPROM s"] by (simp add: pageInRange_def page_wipeEEPROM)

lemma setMemWipeVars_page:
  assumes "pageInRange s"
    and "curPage v = page s \<or> curPage v = advancePage numPages (page s)"
  shows "pageInRange (setMemWipeVars s v)"
  using assms pageInRange_advance [OF assms(1)]
  by (auto simp: setMemWipeVars_def pageInRange_def)

lemma handleDisplay_page:
  shows "pageInRange s \<Longrightarrow> outcomePageInRange (handleDisplay s env)"
    and "pageInRange s \<Longrightarrow> outcomePageInRange (showPage s env)"
    and "pageInRange s \<Longrightarrow> outcomePageInRange (displayFactoryReset s env)"
    and "pageInRange s \<Longrightarrow> outcomePageInRange (clearEEPROM s env)"
proof (induction s env and s env and s env and s env
       rule: handleDisplay_showPage_displayFactoryReset_clearEEPROM.induct)
  case (1 s env)
  show ?case
  proof (cases env)
    case Nil
    with "1.prems" show ?thesis by (simp add: handleDisplay.simps)
  next
    case (Cons p ps)
    show ?thesis
    proof (cases "bootsel p")
      case True
      let ?s1 = "s\<lparr>page := advancePage numPages (page s)\<rparr>"
      have s1: "pageInRange ?s1" using "1.prems" by (rule pageInRange_advance)
      show ?thesis
      proof (cases "awaitRelease ps")
        case None
        with Cons True s1 show ?thesis by (simp add: handleDisplay.simps Let_def)
      next
        case (Some r)
        from "1.IH"(1) [OF Cons True refl Some s1] Cons True Some
        show ?thesis by (simp add: handleDisplay.simps Let_def)
      qed
    next
      case False
      from "1.IH"(2) [OF Cons False "1.prems"] Cons False
      show ?thesis by (simp add: handleDisplay.simps)
    qed
  qed
next
  case (2 s env)
  show ?case
  proof (cases "page s = 2")
    case True
    with displayEject_page [OF "2.prems"] show ?thesis by (simp add: showPage.simps)
  next
    case ne2: False
    show ?thesis
    proof (cases "page s = 3")
      case True
      from "2.IH" [OF ne2 True "2.prems"] ne2 True show ?thesis by (simp add: showPage.simps)
    next
      case False
      with ne2 "2.prems" show ?thesis by (simp add: showPage.simps)
    qed
  qed
next
  case (3 s env)
  note cp = countdown_page [where secondsTotal = memWipeSecondsTotal and v = "memWipeVars s" and env = env]
  show ?case
  proof (cases "countdown memWipeSecondsTotal (memWipeVars s) env")
    case (Expired v r)
    with cp have "pageInRange (setMemWipeVars s v)"
      by (intro setMemWipeVars_page "3.prems") (simp add: memWipeVars_def)
    from "3.IH" [OF Expired this] Expired show ?thesis
      by (simp add: displayFactoryReset.simps)
  next
    case (Cancelled v r)
    with cp have "pageInRange (setMemWipeVars s v)"
      by (intro setMemWipeVars_page "3.prems") (simp add: memWipeVars_def)
    with Cancelled show ?thesis by (simp add: displayFactoryReset.simps)
  next
    case (Polling v)
    with cp have "pageInRange (setMemWipeVars s v)"
      by (intro setMemWipeVars_page "3.prems") (simp add: memWipeVars_def)
    with Polling show ?thesis by (simp add: displayFactoryReset.simps)
  qed
next
  case (4 s env)
  show ?case
  proof (cases "pressAndRelease env")
    case None
    with "4.prems" show ?thesis
      by (simp add: clearEEPROM.simps Let_def pageInRange_def page_wipeEEPROM)
  next
    case (Some r)
    from "4.IH" [OF refl Some pageInRange_wipe_advance [OF "4.prems"]] Some
    show ?thesis by (simp add: clearEEPROM.simps Let_def)
  qed
qed

lemma pageCounts_cong:
  "n mod numPages = m mod numPages \<Longrightarrow> pageCounts n out = pageCounts m out"
  by (cases out) simp_all

lemma advance_step_mod:
  "0 \<le> p \<Longrightarrow> (advancePage numPages p + int k) mod numPages = (p + int (Suc k)) mod numPages"
  by (simp add: advancePage_numPages mod_add_left_eq add.assoc)

lemma pressed_not_last:
  assumes "released (p # ps)" and "bootsel p"
  obtains r where "awaitRelease ps = Some r"
proof -
  from assms have ne: "ps \<noteq> []" by (auto simp: released_def)
  from assms(1) have "released ps" by (rule released_tl)
  with ne awaitRelease_None [of ps] have "awaitRelease ps \<noteq> None" by auto
  then show ?thesis using that by auto
qed

lemma displayEject_counts:
  assumes "pageInRange s" and "released env"
  shows "pageCounts (page s + int (pressEdges env)) (displayEject s env)"
proof (cases "countdown ejectSecondsTotal (ejectVars s) env")
  case (Expired v r)
  then show ?thesis by (simp add: displayEject_def eject_def)
next
  case (Cancelled v r)
  from countdown_page [where secondsTotal = ejectSecondsTotal and v = "ejectVars s" and env = env]
    countdown_edges [OF assms(2), where secondsTotal = ejectSecondsTotal and v = "ejectVars s"]
    Cancelled
  have "curPage v = advancePage numPages (page s)"
    and "edgesFrom False env = Suc (edgesFrom False r)" and "released r"
    by (simp_all add: ejectVars_def)
  with Cancelled assms(1) show ?thesis
    by (simp add: displayEject_def setEjectVars_def pressEdges_def pageInRange_def
        advance_step_mod del: of_nat_Suc)
next
  case (Polling v)
  from countdown_edges [OF assms(2), where secondsTotal = ejectSecondsTotal and v = "ejectVars s"]
    Polling
  have "curPage v = page s" and "edgesFrom False env = 0"
    by (simp_all add: ejectVars_def)
  with Polling show ?thesis
    by (simp add: displayEject_def setEjectVars_def pressEdges_def)
qed

lemma handleDisplay_counts:
  shows "pageInRange s \<Longrightarrow> released env \<Longrightarrow>
           pageCounts (page s + int (pressEdges env)) (handleDisplay s env)"
    and "pageInRange s \<Longrightarrow> released env \<Longrightarrow>
           pageCounts (page s + int (pressEdges env)) (showPage s env)"
    and "pageInRange s \<Longrightarrow> released env \<Longrightarrow>
           pageCounts (page s + int (pressEdges env)) (displayFactoryReset s env)"
    and "pageInRange s \<Longrightarrow> released env \<Longrightarrow>
           pageCounts (page s + int (pressEdges env)) (clearEEPROM s env)"
proof (induction s env and s env and s env and s env
       rule: handleDisplay_showPage_displayFactoryReset_clearEEPROM.induct)
  case (1 s env)
  show ?case
  proof (cases env)
    case Nil
    then show ?thesis by (simp add: handleDisplay.simps pressEdges_def)
  next
    case (Cons p ps)
    show ?thesis
    proof (cases "bootsel p")
      case True
      let ?s1 = "s\<lparr>page := advancePage numPages (page s)\<rparr>"
      have s1: "pageInRange ?s1" using "1.prems"(1) by (rule pageInRange_advance)
      from "1.prems"(2) Cons True obtain r where r: "awaitRelease ps = Some r"
        by (auto elim: pressed_not_last)
      from "1.prems"(2) Cons have "released ps" by (auto dest: released_tl)
      with r have rel: "released r" by (rule awaitRelease_released)
      have e: "pressEdges env = Suc (pressEdges r)"
        using Cons True awaitRelease_edges [OF r] by (simp add: pressEdges_def)
      have ih: "pageCounts (page ?s1 + int (pressEdges r)) (showPage ?s1 r)"
        by (rule "1.IH"(1) [OF Cons True refl r s1 rel])
      have "(page ?s1 + int (pressEdges r)) mod numPages
                   = (page s + int (pressEdges env)) mod numPages"
        using "1.prems"(1) by (simp add: e advance_step_mod pageInRange_def del: of_nat_Suc)
      from pageCounts_cong [OF this] ih
      have "pageCounts (page s + int (pressEdges env)) (showPage ?s1 r)"
        by blast
      with Cons True r show ?thesis by (simp add: handleDisplay.simps Let_def)
    next
      case False
      from "1.prems"(2) Cons have rel: "released ps" by (auto dest: released_tl)
      have e: "pressEdges env = pressEdges ps"
        using Cons False by (simp add: pressEdges_def)
      from "1.IH"(2) [OF Cons False "1.prems"(1) rel] Cons False e
      show ?thesis by (simp add: handleDisplay.simps)
    qed
  qed
next
  case (2 s env)
  show ?case
  proof (cases "page s = 2")
    case True
    with displayEject_counts [OF "2.prems"] show ?thesis by (simp add: showPage.simps)
  next
    case ne2: False
    show ?thesis
    proof (cases "page s = 3")
      case True
      from "2.IH" [OF ne2 True "2.prems"] ne2 True show ?thesis by (simp add: showPage.simps)
    next
      case False
      with ne2 "2.prems" show ?thesis by (simp add: showPage.simps)
    qed
  qed
next
  case (3 s env)
  note cp = countdown_page [where secondsTotal = memWipeSecondsTotal and v = "memWipeVars s" and env = env]
  note ce = countdown_edges [OF "3.prems"(2), where secondsTotal = memWipeSecondsTotal and v = "memWipeVars s"]
  show ?case
  proof (cases "countdown memWipeSecondsTotal (memWipeVars s) env")
    case (Expired v r)
    with cp ce have pg: "curPage v = page s"
      and e: "edgesFrom False env = edgesFrom False r" and rel: "released r"
      by (simp_all add: memWipeVars_def)
    from pg have r2: "pageInRange (setMemWipeVars s v)"
      by (intro setMemWipeVars_page "3.prems") simp
    from "3.IH" [OF Expired r2 rel] Expired pg e show ?thesis
      by (simp add: displayFactoryReset.simps pressEdges_def setMemWipeVars_def)
  next
    case (Cancelled v r)
    with cp ce have "curPage v = advancePage numPages (page s)"
      and "edgesFrom False env = Suc (edgesFrom False r)" and "released r"
      by (simp_all add: memWipeVars_def)
    with Cancelled "3.prems"(1) show ?thesis
      by (simp add: displayFactoryReset.simps setMemWipeVars_def pressEdges_def pageInRange_def
          advance_step_mod del: of_nat_Suc)
  next
    case (Polling v)
    with ce have "curPage v = page s" and "edgesFrom False env = 0"
      by (simp_all add: memWipeVars_def)
    with Polling show ?thesis
      by (simp add: displayFactoryReset.simps setMemWipeVars_def pressEdges_def)
  qed
next
  case (4 s env)
  show ?case
  proof (cases "pressAndRelease env")
    case None
    from pressAndRelease_None [OF None "4.prems"(2)] None show ?thesis
      by (simp add: clearEEPROM.simps Let_def page_wipeEEPROM pressEdges_def)
  next
    case (Some r)
    let ?s2 = "(wipeEEPROM s)\<lparr>page := advancePage numPages (page (wipeEEPROM s))\<rparr>"
    have rel: "released r" using pressAndRelease_Some(2) [OF Some "4.prems"(2)] .
    have e: "pressEdges env = Suc (pressEdges r)"
      using pressAndRelease_Some(1) [OF Some] by (simp add: pressEdges_def)
    have ih: "pageCounts (page ?s2 + int (pressEdges r)) (handleDisplay ?s2 r)"
      by (rule "4.IH" [OF refl Some pageInRange_wipe_advance [OF "4.prems"(1)] rel])
    have "(page ?s2 + int (pressEdges r)) mod numPages
                 = (page s + int (pressEdges env)) mod numPages"
      using "4.prems"(1)
      by (simp add: e advance_step_mod pageInRange_def page_wipeEEPROM del: of_nat_Suc)
    from pageCounts_cong [OF this] ih
    have "pageCounts (page s + int (pressEdges env)) (handleDisplay ?s2 r)"
      by blast
    with Some show ?thesis by (simp add: clearEEPROM.simps Let_def)
  qed
qed

lemma runLoop_page:
  "pageInRange s \<Longrightarrow>
   (case runLoop s env of
      Pending s' \<Rightarrow> pageInRange s'
    | Halted s' \<Rightarrow> pageInRange s'
    | Return s' r \<Rightarrow> False
    | OutOfBounds i \<Rightarrow> False)"
proof (induction s env rule: runLoop.induct)
  case (1 s env)
  note hp = handleDisplay_page(1) [OF "1.prems", of env]
  show ?case
  proof (cases "handleDisplay s env")
    case (Return s1 r1)
    with hp have "pageInRange s1" by simp
    from "1.IH" [OF Return this] Return show ?thesis
      by (subst runLoop.simps) simp
  next
    case (Pending s1)
    with hp show ?thesis by (subst runLoop.simps) simp
  next
    case (Halted s1)
    with hp show ?thesis by (subst runLoop.simps) simp
  next
    case (OutOfBounds i)
    with hp show ?thesis by simp
  qed
qed

lemma runLoop_counts:
  "pageInRange s \<Longrightarrow> released env \<Longrightarrow>
   (case runLoop s env of
      Pending s' \<Rightarrow> page s' = (page s + int (pressEdges env)) mod numPages
    | Halted s' \<Rightarrow> True
    | Return s' r \<Rightarrow> False
    | OutOfBounds i \<Rightarrow> False)"
proof (induction s env rule: runLoop.induct)
  case (1 s env)
  note hp = handleDisplay_page(1) [OF "1.prems"(1), of env]
  note hc = handleDisplay_counts(1) [OF "1.prems"]
  show ?case
  proof (cases "handleDisplay s env")
    case (Return s1 r1)
    with hp hc have in1: "pageInRange s1" and rel1: "released r1"
      and m: "(page s1 + int (pressEdges r1)) mod numPages = (page s + int (pressEdges env)) mod numPages"
      by simp_all
    from "1.IH" [OF Return in1 rel1] Return m show ?thesis
      by (subst runLoop.simps) (simp split: outcome.splits)
  next
    case (Pending s1)
    with hp hc show ?thesis
      by (subst runLoop.simps) (simp add: pageInRange_def)
  next
    case (Halted s1)
    then show ?thesis by (subst runLoop.simps) simp
  next
    case (OutOfBounds i)
    with hp show ?thesis by simp
  qed
qed

lemma advancePage_funpow:
  assumes "0 < P"
  shows "(advancePage P ^^ k) 0 = int k mod P"
proof (induction k)
  case 0
  show ?case by simp
next
  case (Suc k)
  have "0 \<le> int k mod P" using assms by simp
  then have "advancePage P (int k mod P) = (int k mod P + 1) mod P"
    using assms by (rule advancePage_mod)
  also have "\<dots> = (int k + 1) mod P" by (simp add: mod_add_left_eq)
  finally show ?case using Suc by (simp add: add.commute)
qed

text \<open>
  Claim C6. For every page count \<open>P > 0\<close>, \<open>k\<close> times \<open>page++; page = page % P\<close> from
  page 0 give page \<open>k mod P\<close>, which lies in \<open>0 .. P - 1\<close>. For the sketch itself, run
  by \<open>loop\<close> from page 0 over any polls that end with the button up: while it has not
  halted in \<open>eject\<close>, the page is the number of press edges modulo \<open>numPages\<close>; and
  over any polls at all the page stays in range.
\<close>

theorem page_is_press_count_mod_pages:
  assumes "0 < P" and "page s = 0" and "released env"
  shows "(advancePage P ^^ k) 0 = int k mod P
       \<and> 0 \<le> (advancePage P ^^ k) 0 \<and> (advancePage P ^^ k) 0 < P
       \<and> (case runLoop s env of
             Pending s' \<Rightarrow> page s' = int (pressEdges env) mod numPages
           | Halted s' \<Rightarrow> 0 \<le> page s' \<and> page s' < numPages
           | Return s' r \<Rightarrow> False
           | OutOfBounds i \<Rightarrow> False)
       \<and> (case runLoop s anyPolls of
             Pending s' \<Rightarrow> 0 \<le> page s' \<and> page s' < numPages
           | Halted s' \<Rightarrow> 0 \<le> page s' \<and> page s' < numPages
           | Return s' r \<Rightarrow> False
           | OutOfBounds i \<Rightarrow> False)"
proof -
  have r: "pageInRange s" using assms(2) by (simp add: pageInRange_def numPages_def)
  have a: "(advancePage P ^^ k) 0 = int k mod P" using assms(1) by (rule advancePage_funpow)
  have b: "0 \<le> (advancePage P ^^ k) 0 \<and> (advancePage P ^^ k) 0 < P"
    using assms(1) by (simp add: a)
  have c: "case runLoop s env of
             Pending s' \<Rightarrow> page s' = int (pressEdges env) mod numPages
           | Halted s' \<Rightarrow> 0 \<le> page s' \<and> page s' < numPages
           | Return s' r \<Rightarrow> False
           | OutOfBounds i \<Rightarrow> False"
    using runLoop_counts [OF r assms(3)] runLoop_page [OF r, of env] assms(2)
    by (auto split: outcome.splits simp: pageInRange_def)
  have d: "case runLoop s anyPolls of
             Pending s' \<Rightarrow> 0 \<le> page s' \<and> page s' < numPages
           | Halted s' \<Rightarrow> 0 \<le> page s' \<and> page s' < numPages
           | Return s' r \<Rightarrow> False
           | OutOfBounds i \<Rightarrow> False"
    using runLoop_page [OF r, of anyPolls]
    by (auto split: outcome.splits simp: pageInRange_def)
  from a b c d show ?thesis by blast
qed

theorem page_is_press_count_mod_pages_witness:
  "(0::int) < 5 \<and> page freshDevice = 0 \<and> released sixPresses \<and> pressEdges sixPresses = 6
   \<and> (advancePage 5 ^^ 7) 0 = 2
   \<and> (case runLoop freshDevice sixPresses of
         Pending s' \<Rightarrow> page s' = 1
       | Halted s' \<Rightarrow> False
       | Return s' r \<Rightarrow> False
       | OutOfBounds i \<Rightarrow> False)"
proof -
  have h: "(0::int) < 5" "page freshDevice = 0" "released sixPresses"
    by (simp_all add: freshDevice_def powerOn_def released_def sixPresses_def tickAt_def)
  have e: "pressEdges sixPresses = 6" by code_simp
  have nh: "\<And>s'. runLoop freshDevice sixPresses \<noteq> Halted s'" by code_simp
  from page_is_press_count_mod_pages [OF h, of 7 sixPresses] h e nh show ?thesis
    by (auto split: outcome.splits simp: numPages_def)
qed

end
